theory Spec2Isabelle
  imports Complex_Main
begin

section \<open>The scalar engine (engine.py)\<close>

text \<open>
  Python objects are mutable and compared by identity, so the model keeps an explicit
  store: a reference is the index of an object in the store, and a new object is
  appended at the end. Numbers are modelled as exact reals: the rounding and the range
  of Python floats are outside the model.
\<close>

type_synonym ref = nat

datatype error = ZeroDivisionError | OverflowError | TypeError

text \<open>
  The closures that the operators store in \<open>_backward\<close>, each with the variables
  it captures, in the order \<open>self\<close>, other captured values, \<open>res\<close>.
\<close>

datatype closure =
    Noop
  | AddBackward ref ref ref
  | MulBackward ref ref ref
  | PowBackward ref real ref
  | TanhBackward ref real ref
  | ReluBackward ref ref
  | GeluBackward ref real real ref

text \<open>Class \<open>Scalar\<close>; the field \<open>value\<close> is called \<open>val\<close> here.\<close>

record scalar =
  val :: real
  grad :: real
  backward_rule :: closure
  ancestors :: "ref set"

type_synonym heap = "scalar list"

text \<open>An operand of an operator: a plain number or a \<open>Scalar\<close> object.\<close>

datatype operand = Num real | Obj ref

text \<open>
  The operator \<open>**\<close> on Python numbers returns a number or raises; it is a
  parameter \<open>pw\<close> of the model.
\<close>

type_synonym pyPow = "real \<Rightarrow> real \<Rightarrow> error + real"

definition Scalar_init :: "real \<Rightarrow> ref list \<Rightarrow> heap \<Rightarrow> ref \<times> heap" where
  "Scalar_init v anc h =
     (length h, h @ [\<lparr>val = v, grad = 0, backward_rule = Noop, ancestors = set anc\<rparr>])"

definition set_backward :: "ref \<Rightarrow> closure \<Rightarrow> heap \<Rightarrow> heap" where
  "set_backward r c h = h[r := (h ! r)\<lparr>backward_rule := c\<rparr>]"

definition set_grad :: "ref \<Rightarrow> real \<Rightarrow> heap \<Rightarrow> heap" where
  "set_grad r g h = h[r := (h ! r)\<lparr>grad := g\<rparr>]"

text \<open>The statement \<open>r.grad += x\<close>.\<close>

definition add_grad :: "ref \<Rightarrow> real \<Rightarrow> heap \<Rightarrow> heap" where
  "add_grad r x h = set_grad r (grad (h ! r) + x) h"

text \<open>\<open>if not isinstance(other, Scalar): other = Scalar(other)\<close>\<close>

fun promote :: "operand \<Rightarrow> heap \<Rightarrow> ref \<times> heap" where
  "promote (Obj r) h = (r, h)"
| "promote (Num c) h = Scalar_init c [] h"

definition Scalar_add :: "ref \<Rightarrow> operand \<Rightarrow> heap \<Rightarrow> ref \<times> heap" where
  "Scalar_add self other h =
     (let (other', h1) = promote other h;
          (res, h2) = Scalar_init (val (h1 ! self) + val (h1 ! other')) [self, other'] h1
      in (res, set_backward res (AddBackward self other' res) h2))"

definition Scalar_radd :: "ref \<Rightarrow> operand \<Rightarrow> heap \<Rightarrow> ref \<times> heap" where
  "Scalar_radd self other h = Scalar_add self other h"

definition Scalar_mul :: "ref \<Rightarrow> operand \<Rightarrow> heap \<Rightarrow> ref \<times> heap" where
  "Scalar_mul self other h =
     (let (other', h1) = promote other h;
          (res, h2) = Scalar_init (val (h1 ! self) * val (h1 ! other')) [self, other'] h1
      in (res, set_backward res (MulBackward self other' res) h2))"

definition Scalar_rmul :: "ref \<Rightarrow> operand \<Rightarrow> heap \<Rightarrow> ref \<times> heap" where
  "Scalar_rmul self other h = Scalar_mul self other h"

definition Scalar_pow :: "pyPow \<Rightarrow> ref \<Rightarrow> real \<Rightarrow> heap \<Rightarrow> error + ref \<times> heap" where
  "Scalar_pow pw self pwr h =
     (case pw (val (h ! self)) pwr of
        Inl e \<Rightarrow> Inl e
      | Inr v \<Rightarrow>
          (let (res, h1) = Scalar_init v [self] h
           in Inr (res, set_backward res (PowBackward self pwr res) h1)))"

definition Scalar_tanh :: "ref \<Rightarrow> heap \<Rightarrow> ref \<times> heap" where
  "Scalar_tanh self h =
     (let x = val (h ! self);
          y = (exp (2 * x) - 1) / (exp (2 * x) + 1);
          (res, h1) = Scalar_init y [self] h
      in (res, set_backward res (TanhBackward self y res) h1))"

definition Scalar_relu :: "ref \<Rightarrow> heap \<Rightarrow> ref \<times> heap" where
  "Scalar_relu self h =
     (let (res, h1) = Scalar_init (if val (h ! self) < 0 then 0 else val (h ! self)) [self] h
      in (res, set_backward res (ReluBackward self res) h1))"

definition Scalar_gelu :: "ref \<Rightarrow> heap \<Rightarrow> ref \<times> heap" where
  "Scalar_gelu self h =
     (let x = val (h ! self);
          inner = sqrt (2.0 / pi) * (x + 0.044715 * x * x * x);
          y = 0.5 * x * (1 + (exp (2 * inner) - 1) / (exp (2 * inner) + 1));
          (res, h1) = Scalar_init y [self] h
      in (res, set_backward res (GeluBackward self x inner res) h1))"

text \<open>Calling a stored closure: the bodies of the local functions \<open>_backward\<close>.\<close>

fun call :: "pyPow \<Rightarrow> closure \<Rightarrow> heap \<Rightarrow> error + heap" where
  "call pw Noop h = Inr h"
| "call pw (AddBackward self other res) h =
     (let h1 = add_grad self (grad (h ! res)) h;
          h2 = add_grad other (grad (h1 ! res)) h1
      in Inr h2)"
| "call pw (MulBackward self other res) h =
     (let h1 = add_grad self (val (h ! other) * grad (h ! res)) h;
          h2 = add_grad other (val (h1 ! self) * grad (h1 ! res)) h1
      in Inr h2)"
| "call pw (PowBackward self pwr res) h =
     (case pw (val (h ! self)) (pwr - 1) of
        Inl e \<Rightarrow> Inl e
      | Inr q \<Rightarrow> Inr (add_grad self ((pwr * q) * grad (h ! res)) h))"
| "call pw (TanhBackward self y res) h =
     Inr (add_grad self ((1 - y ^ 2) * grad (h ! res)) h)"
| "call pw (ReluBackward self res) h =
     Inr (add_grad self ((if val (h ! res) > 0 then 1 else 0) * grad (h ! res)) h)"
| "call pw (GeluBackward self x inner res) h =
     (let sech_inner = 2.0 / (exp inner + exp (- inner))
      in Inr (add_grad self
                ((0.5 * (1 + tanh inner) + 0.5 * x * sech_inner * sech_inner *
                  sqrt (2.0 / pi) * (1 + 3 * 0.044715 * x * x)) * grad (h ! res)) h))"

text \<open>
  The local function \<open>dfs\<close> of \<open>backward\<close>, with the state \<open>(visited, toposort)\<close>
  passed explicitly. The first argument \<open>iter u S\<close> is the order in which Python
  iterates over the set \<open>S\<close> held by object \<open>u\<close>; the second bounds the depth of
  the recursion, and \<open>None\<close> means that the bound was reached.
\<close>

fun dfs :: "(ref \<Rightarrow> ref set \<Rightarrow> ref list) \<Rightarrow> nat \<Rightarrow> heap \<Rightarrow> ref \<Rightarrow>
              ref set \<times> ref list \<Rightarrow> (ref set \<times> ref list) option"
and dfs_each :: "(ref \<Rightarrow> ref set \<Rightarrow> ref list) \<Rightarrow> nat \<Rightarrow> heap \<Rightarrow> ref list \<Rightarrow>
              ref set \<times> ref list \<Rightarrow> (ref set \<times> ref list) option"
where
  "dfs iter 0 h u st = None"
| "dfs iter (Suc k) h u (visited, toposort) =
     (if u \<in> visited then Some (visited, toposort)
      else case dfs_each iter k h (iter u (ancestors (h ! u))) (insert u visited, toposort) of
             None \<Rightarrow> None
           | Some (visited', toposort') \<Rightarrow> Some (visited', toposort' @ [u]))"
| "dfs_each iter k h [] st = Some st"
| "dfs_each iter k h (v # vs) st =
     (case dfs iter k h v st of
        None \<Rightarrow> None
      | Some st' \<Rightarrow> dfs_each iter k h vs st')"

text \<open>The loop \<open>for node in reversed(toposort): node._backward()\<close>.\<close>

fun run_all :: "pyPow \<Rightarrow> ref list \<Rightarrow> heap \<Rightarrow> error + heap" where
  "run_all pw [] h = Inr h"
| "run_all pw (node # nodes) h =
     (case call pw (backward_rule (h ! node)) h of
        Inl e \<Rightarrow> Inl e
      | Inr h' \<Rightarrow> run_all pw nodes h')"

definition backward ::
  "(ref \<Rightarrow> ref set \<Rightarrow> ref list) \<Rightarrow> pyPow \<Rightarrow> nat \<Rightarrow> ref \<Rightarrow> heap \<Rightarrow> (error + heap) option" where
  "backward iter pw fuel self h =
     (case dfs iter fuel h self ({}, []) of
        None \<Rightarrow> None
      | Some (visited, toposort) \<Rightarrow> Some (run_all pw (rev toposort) (set_grad self 1 h)))"


subsection \<open>The remaining operators and the operator protocol\<close>

definition Scalar_neg :: "ref \<Rightarrow> heap \<Rightarrow> ref \<times> heap" where
  "Scalar_neg self h = Scalar_mul self (Num (- 1)) h"

definition Scalar_sub :: "ref \<Rightarrow> operand \<Rightarrow> heap \<Rightarrow> ref \<times> heap" where
  "Scalar_sub self other h =
     (case other of
        Num c \<Rightarrow> Scalar_add self (Num (- c)) h
      | Obj b \<Rightarrow> (let (n, h1) = Scalar_neg b h in Scalar_add self (Obj n) h1))"

definition Scalar_rsub :: "ref \<Rightarrow> operand \<Rightarrow> heap \<Rightarrow> ref \<times> heap" where
  "Scalar_rsub self other h =
     (let (n, h1) = Scalar_neg self h
      in case other of
           Num c \<Rightarrow> Scalar_radd n (Num c) h1
         | Obj b \<Rightarrow> Scalar_add b (Obj n) h1)"

definition Scalar_div :: "pyPow \<Rightarrow> ref \<Rightarrow> operand \<Rightarrow> heap \<Rightarrow> error + ref \<times> heap" where
  "Scalar_div pw self other h =
     (case other of
        Num c \<Rightarrow>
          (case pw c (- 1) of
             Inl e \<Rightarrow> Inl e
           | Inr v \<Rightarrow> Inr (Scalar_mul self (Num v) h))
      | Obj b \<Rightarrow>
          (case Scalar_pow pw b (- 1) h of
             Inl e \<Rightarrow> Inl e
           | Inr (q, h1) \<Rightarrow> Inr (Scalar_mul self (Obj q) h1)))"

definition Scalar_rdiv :: "pyPow \<Rightarrow> ref \<Rightarrow> operand \<Rightarrow> heap \<Rightarrow> error + ref \<times> heap" where
  "Scalar_rdiv pw self other h =
     (case Scalar_pow pw self (- 1) h of
        Inl e \<Rightarrow> Inl e
      | Inr (q, h1) \<Rightarrow>
          (case other of
             Num c \<Rightarrow> Inr (Scalar_rmul q (Num c) h1)
           | Obj b \<Rightarrow> Inr (Scalar_mul b (Obj q) h1)))"

text \<open>
  The class as a dictionary: the binary special methods that the body of class
  \<open>Scalar\<close> defines, by name. With a \<open>Scalar\<close> as exponent, \<open>**\<close> on the
  value finds no method and raises.
\<close>

definition Scalar_binary ::
  "(string \<times> (pyPow \<Rightarrow> ref \<Rightarrow> operand \<Rightarrow> heap \<Rightarrow> error + ref \<times> heap)) list" where
  "Scalar_binary =
     [(''__add__'', \<lambda>pw self other h. Inr (Scalar_add self other h)),
      (''__radd__'', \<lambda>pw self other h. Inr (Scalar_radd self other h)),
      (''__sub__'', \<lambda>pw self other h. Inr (Scalar_sub self other h)),
      (''__rsub__'', \<lambda>pw self other h. Inr (Scalar_rsub self other h)),
      (''__mul__'', \<lambda>pw self other h. Inr (Scalar_mul self other h)),
      (''__rmul__'', \<lambda>pw self other h. Inr (Scalar_rmul self other h)),
      (''__div__'', Scalar_div),
      (''__rdiv__'', Scalar_rdiv),
      (''__pow__'', \<lambda>pw self other h.
          case other of Num p \<Rightarrow> Scalar_pow pw self p h | Obj b \<Rightarrow> Inl TypeError)]"

text \<open>
  Python 3 evaluates \<open>a op other\<close>, for an object \<open>a\<close> of class \<open>Scalar\<close>, by the
  forward special method of the class; when the class has none, the reflected method of
  a number does not accept a \<open>Scalar\<close>, and for two objects of the same class no
  reflected method is tried: the expression raises \<open>TypeError\<close>.
\<close>

definition Scalar_op ::
  "string \<Rightarrow> pyPow \<Rightarrow> ref \<Rightarrow> operand \<Rightarrow> heap \<Rightarrow> error + ref \<times> heap" where
  "Scalar_op forward pw a other h =
     (case map_of Scalar_binary forward of
        Some f \<Rightarrow> f pw a other h
      | None \<Rightarrow> Inl TypeError)"

text \<open>
  \<open>c op b\<close> for a plain number \<open>c\<close> and an object \<open>b\<close> of class \<open>Scalar\<close>: the
  number's own method does not accept a \<open>Scalar\<close>, so Python calls the reflected
  special method of \<open>b\<close> with \<open>c\<close> as argument.
\<close>

definition number_op_Scalar ::
  "string \<Rightarrow> pyPow \<Rightarrow> real \<Rightarrow> ref \<Rightarrow> heap \<Rightarrow> error + ref \<times> heap" where
  "number_op_Scalar reflected pw c b h =
     (case map_of Scalar_binary reflected of
        Some f \<Rightarrow> f pw b (Num c) h
      | None \<Rightarrow> Inl TypeError)"

section \<open>The network layer (nn.py)\<close>

record neuron =
  weights :: "ref list"
  bias :: ref
  activation :: string

text \<open>
  \<open>Neuron.__init__\<close>; the numbers drawn by \<open>random.uniform(-1, 1)\<close> are the list
  \<open>draws\<close>, one for each input.
\<close>

fun Scalars :: "real list \<Rightarrow> heap \<Rightarrow> ref list \<times> heap" where
  "Scalars [] h = ([], h)"
| "Scalars (v # vs) h =
     (let (r, h1) = Scalar_init v [] h;
          (rs, h2) = Scalars vs h1
      in (r # rs, h2))"

definition Neuron_init :: "real list \<Rightarrow> string \<Rightarrow> heap \<Rightarrow> neuron \<times> heap" where
  "Neuron_init draws act h =
     (let (ws, h1) = Scalars draws h;
          (b, h2) = Scalar_init 0 [] h1
      in (\<lparr>weights = ws, bias = b, activation = act\<rparr>, h2))"

text \<open>The list comprehension \<open>[wi * xi for wi, xi in zip(self.weights, x)]\<close>.\<close>

fun products :: "(ref \<times> operand) list \<Rightarrow> heap \<Rightarrow> ref list \<times> heap" where
  "products [] h = ([], h)"
| "products ((wi, xi) # ps) h =
     (let (t, h1) = Scalar_mul wi xi h;
          (ts, h2) = products ps h1
      in (t # ts, h2))"

text \<open>The built-in \<open>sum(items, start)\<close>, which adds the items to \<open>start\<close> from the left.\<close>

fun sum_from :: "ref \<Rightarrow> ref list \<Rightarrow> heap \<Rightarrow> ref \<times> heap" where
  "sum_from acc [] h = (acc, h)"
| "sum_from acc (t # ts) h =
     (let (acc', h1) = Scalar_add acc (Obj t) h in sum_from acc' ts h1)"

definition pre_activation :: "neuron \<Rightarrow> operand list \<Rightarrow> heap \<Rightarrow> ref \<times> heap" where
  "pre_activation n x h =
     (let (ts, h1) = products (zip (weights n) x) h
      in sum_from (bias n) ts h1)"

text \<open>\<open>Neuron.__call__\<close>; the result \<open>None\<close> is Python's \<open>None\<close>.\<close>

definition Neuron_call :: "neuron \<Rightarrow> operand list \<Rightarrow> heap \<Rightarrow> ref option \<times> heap" where
  "Neuron_call n x h =
     (let (y, h1) = pre_activation n x h
      in if activation n = ''linear'' then (Some y, h1)
         else if activation n = ''tanh'' then (let (r, h2) = Scalar_tanh y h1 in (Some r, h2))
         else if activation n = ''relu'' then (let (r, h2) = Scalar_relu y h1 in (Some r, h2))
         else if activation n = ''gelu'' then (let (r, h2) = Scalar_gelu y h1 in (Some r, h2))
         else (None, h1))"

definition Neuron_parameters :: "neuron \<Rightarrow> ref list" where
  "Neuron_parameters n = weights n @ [bias n]"

text \<open>\<open>Module.zero_grad\<close> for a neuron.\<close>

definition Neuron_zero_grad :: "neuron \<Rightarrow> heap \<Rightarrow> heap" where
  "Neuron_zero_grad n h = fold (\<lambda>p. set_grad p 0) (Neuron_parameters n) h"

section \<open>Notions used to state the properties\<close>

text \<open>
  An iteration order of sets: every element of a finite set comes once.
\<close>

definition enumerates :: "(ref \<Rightarrow> ref set \<Rightarrow> ref list) \<Rightarrow> bool" where
  "enumerates iter = (\<forall>u S. finite S \<longrightarrow> set (iter u S) = S \<and> distinct (iter u S))"

text \<open>
  A closure stored in object \<open>m\<close> with ancestors \<open>A\<close> is the one an operator
  builds: it names \<open>m\<close> as \<open>res\<close> and writes to ancestors of \<open>m\<close> only.
\<close>

fun owned :: "ref \<Rightarrow> ref set \<Rightarrow> closure \<Rightarrow> bool" where
  "owned m A Noop = True"
| "owned m A (AddBackward s t r) = (r = m \<and> s \<in> A \<and> t \<in> A)"
| "owned m A (MulBackward s t r) = (r = m \<and> s \<in> A \<and> t \<in> A)"
| "owned m A (PowBackward s p r) = (r = m \<and> s \<in> A)"
| "owned m A (TanhBackward s y r) = (r = m \<and> s \<in> A)"
| "owned m A (ReluBackward s r) = (r = m \<and> s \<in> A)"
| "owned m A (GeluBackward s x inner r) = (r = m \<and> s \<in> A)"

text \<open>
  The stores that the operators build: the ancestors of an object were created before
  it, and its closure is its own. Such a store is an acyclic expression graph.
\<close>

definition wf_heap :: "heap \<Rightarrow> bool" where
  "wf_heap h =
     (\<forall>m<length h. ancestors (h ! m) \<subseteq> {..<m} \<and>
                   owned m (ancestors (h ! m)) (backward_rule (h ! m)))"

text \<open>The nodes reachable from \<open>r\<close> along the ancestor relation.\<close>

inductive_set reach :: "heap \<Rightarrow> ref \<Rightarrow> ref set" for h :: heap and r :: ref where
  root: "r \<in> reach h r"
| step: "u \<in> reach h r \<Longrightarrow> v \<in> ancestors (h ! u) \<Longrightarrow> v \<in> reach h r"

text \<open>
  A list of nodes in which each node comes once, is not in \<open>V\<close>, and has all its
  ancestors in \<open>V\<close> or later in the list: the order in which \<open>backward\<close> calls
  the closures, every node before its ancestors.
\<close>

fun dependents_first :: "heap \<Rightarrow> ref set \<Rightarrow> ref list \<Rightarrow> bool" where
  "dependents_first h V [] = True"
| "dependents_first h V (m # ns) =
     (m \<notin> set ns \<and> m \<notin> V \<and> ancestors (h ! m) \<subseteq> V \<union> set ns \<and> dependents_first h V ns)"



definition sech :: "real \<Rightarrow> real" where
  "sech u = 1 / cosh u"

definition gelu_slope :: "real \<Rightarrow> real \<Rightarrow> real" where
  "gelu_slope x inner =
     0.5 * (1 + tanh inner) +
     0.5 * x * (sech inner) ^ 2 * sqrt (2 / pi) * (1 + 3 * 0.044715 * x ^ 2)"

text \<open>
  The local partial derivative with which the closure \<open>c\<close> passes the gradient of its
  result on to node \<open>n\<close>; a node that is both operands receives both shares.
\<close>

fun weight :: "pyPow \<Rightarrow> heap \<Rightarrow> closure \<Rightarrow> ref \<Rightarrow> real" where
  "weight pw h Noop n = 0"
| "weight pw h (AddBackward s t r) n = (if n = s then 1 else 0) + (if n = t then 1 else 0)"
| "weight pw h (MulBackward s t r) n =
     (if n = s then val (h ! t) else 0) + (if n = t then val (h ! s) else 0)"
| "weight pw h (PowBackward s p r) n =
     (if n = s then (case pw (val (h ! s)) (p - 1) of Inl e \<Rightarrow> 0 | Inr q \<Rightarrow> p * q) else 0)"
| "weight pw h (TanhBackward s y r) n = (if n = s then 1 - y ^ 2 else 0)"
| "weight pw h (ReluBackward s r) n =
     (if n = s then (if val (h ! r) > 0 then 1 else 0) else 0)"
| "weight pw h (GeluBackward s x inner r) n = (if n = s then gelu_slope x inner else 0)"

text \<open>The closure raises when it is called: only \<open>**\<close> can.\<close>

fun raises :: "pyPow \<Rightarrow> heap \<Rightarrow> closure \<Rightarrow> bool" where
  "raises pw h (PowBackward s p r) = isl (pw (val (h ! s)) (p - 1))"
| "raises pw h c = False"



text \<open>
  The gradient that node \<open>n\<close> receives from the closures of the nodes in \<open>S\<close>: for
  each of them its local partial derivative times its own gradient.
\<close>

definition received :: "pyPow \<Rightarrow> heap \<Rightarrow> ref set \<Rightarrow> ref \<Rightarrow> real" where
  "received pw h S n = (\<Sum>m\<in>S. weight pw h (backward_rule (h ! m)) n * grad (h ! m))"


section \<open>The store and the closures\<close>

lemma length_set_grad [simp]: "length (set_grad r g h) = length h"
  by (simp add: set_grad_def)

lemma length_add_grad [simp]: "length (add_grad r x h) = length h"
  by (simp add: add_grad_def)

lemma nth_set_grad:
  "n < length h \<Longrightarrow> set_grad r g h ! n = (if n = r then (h ! n)\<lparr>grad := g\<rparr> else h ! n)"
  by (simp add: set_grad_def)

lemma val_set_grad [simp]: "val (set_grad r g h ! n) = val (h ! n)"
  by (cases "r < length h"; cases "n = r") (simp_all add: set_grad_def list_update_beyond)

lemma rule_set_grad [simp]: "backward_rule (set_grad r g h ! n) = backward_rule (h ! n)"
  by (cases "r < length h"; cases "n = r") (simp_all add: set_grad_def list_update_beyond)

lemma ancestors_set_grad [simp]: "ancestors (set_grad r g h ! n) = ancestors (h ! n)"
  by (cases "r < length h"; cases "n = r") (simp_all add: set_grad_def list_update_beyond)

lemma grad_set_grad:
  "n < length h \<Longrightarrow> grad (set_grad r g h ! n) = (if n = r then g else grad (h ! n))"
  by (simp add: set_grad_def)

lemma val_add_grad [simp]: "val (add_grad r x h ! n) = val (h ! n)"
  by (simp add: add_grad_def)

lemma rule_add_grad [simp]: "backward_rule (add_grad r x h ! n) = backward_rule (h ! n)"
  by (simp add: add_grad_def)

lemma ancestors_add_grad [simp]: "ancestors (add_grad r x h ! n) = ancestors (h ! n)"
  by (simp add: add_grad_def)

lemma grad_add_grad:
  "n < length h \<Longrightarrow> grad (add_grad r x h ! n) = grad (h ! n) + (if n = r then x else 0)"
  by (simp add: add_grad_def grad_set_grad)

lemma grad_add_grad_other: "n \<noteq> r \<Longrightarrow> grad (add_grad r x h ! n) = grad (h ! n)"
  by (simp add: add_grad_def set_grad_def)

lemma sech_exp: "2 / (exp u + exp (- u)) = sech (u::real)"
  by (simp add: sech_def cosh_field_def)


text \<open>What a call of a closure does to the store.\<close>

lemma call_frame:
  assumes "call pw c h = Inr h'"
  shows "length h' = length h" "val (h' ! n) = val (h ! n)"
    "backward_rule (h' ! n) = backward_rule (h ! n)" "ancestors (h' ! n) = ancestors (h ! n)"
  using assms by (cases c; auto simp: Let_def split: sum.splits)+

lemma call_grad:
  assumes "call pw c h = Inr h'" "owned m A c" "m \<notin> A" "n < length h"
  shows "grad (h' ! n) = grad (h ! n) + weight pw h c n * grad (h ! m)"
  using assms
proof (cases c)
  case (AddBackward s t r)
  with assms have ne: "s \<noteq> m" "t \<noteq> m" "r = m" by auto
  show ?thesis
    using assms(1,4) ne unfolding AddBackward
    by (auto simp: Let_def grad_add_grad grad_add_grad_other)
next
  case (MulBackward s t r)
  with assms have ne: "s \<noteq> m" "t \<noteq> m" "r = m" by auto
  show ?thesis
    using assms(1,4) ne unfolding MulBackward
    by (auto simp: Let_def grad_add_grad grad_add_grad_other algebra_simps)
qed (use assms in \<open>auto simp: Let_def grad_add_grad sech_exp gelu_slope_def power2_eq_square algebra_simps split: sum.splits\<close>)

lemma call_raises: "(\<exists>e. call pw c h = Inl e) \<longleftrightarrow> raises pw h c"
  by (cases c) (auto simp: Let_def isl_def split: sum.splits)

section \<open>The depth-first traversal\<close>

lemma dependents_first_append:
  "dependents_first h V (as @ bs) \<longleftrightarrow>
     dependents_first h (V \<union> set bs) as \<and> dependents_first h V bs"
  by (induction as) auto

lemma dependents_first_shrink:
  "dependents_first h (insert u V) ns \<Longrightarrow> \<forall>m\<in>set ns. u \<notin> ancestors (h ! m) \<Longrightarrow>
     dependents_first h V ns"
  by (induction ns) auto

lemma dependents_first_closed:
  "dependents_first h V ns \<Longrightarrow> m \<in> set ns \<Longrightarrow> ancestors (h ! m) \<subseteq> V \<union> set ns"
  by (induction ns) auto

lemma dependents_first_distinct:
  "dependents_first h V ns \<Longrightarrow> distinct ns \<and> set ns \<inter> V = {}"
  by (induction ns) auto

lemma reach_ancestor:
  "m \<in> reach h v \<Longrightarrow> v \<in> ancestors (h ! u) \<Longrightarrow> m \<in> reach h u"
proof (induction rule: reach.induct)
  case root
  then show ?case by (blast intro: reach.intros)
next
  case (step x y)
  then show ?case by (blast intro: reach.step)
qed

lemma wf_heap_ancestors: "wf_heap h \<Longrightarrow> m < length h \<Longrightarrow> v \<in> ancestors (h ! m) \<Longrightarrow> v < m"
  by (auto simp: wf_heap_def)

lemma wf_heap_owned:
  "wf_heap h \<Longrightarrow> m < length h \<Longrightarrow> owned m (ancestors (h ! m)) (backward_rule (h ! m))"
  by (auto simp: wf_heap_def)

lemma reach_le:
  assumes "wf_heap h" "r < length h"
  shows "m \<in> reach h r \<Longrightarrow> m \<le> r"
proof (induction rule: reach.induct)
  case root
  then show ?case by simp
next
  case (step u v)
  with assms have "v < u" by (intro wf_heap_ancestors[of h u v]) auto
  with step show ?case by simp
qed

lemma dfs_spec:
  shows "wf_heap h \<Longrightarrow> enumerates iter \<Longrightarrow> u < length h \<Longrightarrow> u < k \<Longrightarrow>
           (\<exists>new. dfs iter k h u st = Some (fst st \<union> set new, snd st @ new) \<and>
                  dependents_first h (fst st) (rev new) \<and>
                  set new \<subseteq> {..u} \<and> set new \<subseteq> reach h u \<and> u \<in> fst st \<union> set new \<and>
                  (u \<notin> fst st \<longrightarrow> new \<noteq> [] \<and> last new = u))"
    and "wf_heap h \<Longrightarrow> enumerates iter \<Longrightarrow> \<forall>v\<in>set vs. v < length h \<and> v < k \<Longrightarrow>
           (\<exists>new. dfs_each iter k h vs st = Some (fst st \<union> set new, snd st @ new) \<and>
                  dependents_first h (fst st) (rev new) \<and>
                  (\<forall>m\<in>set new. \<exists>v\<in>set vs. m \<le> v \<and> m \<in> reach h v) \<and>
                  set vs \<subseteq> fst st \<union> set new)"
proof (induction iter k h u st and iter k h vs st rule: dfs_dfs_each.induct)
  case (1 iter h u st)
  then show ?case by simp
next
  case (2 iter k h u visited toposort)
  note wf = \<open>wf_heap h\<close> and en = \<open>enumerates iter\<close>
  show ?case
  proof (cases "u \<in> visited")
    case True
    then show ?thesis
      by (intro exI[of _ "[]"]) simp
  next
    case False
    have anc: "ancestors (h ! u) \<subseteq> {..<u}"
      using wf \<open>u < length h\<close> by (auto simp: wf_heap_def)
    then have fin: "finite (ancestors (h ! u))"
      by (rule finite_subset) simp
    have set_iter: "set (iter u (ancestors (h ! u))) = ancestors (h ! u)"
      using en fin by (simp add: enumerates_def)
    have "\<forall>v\<in>set (iter u (ancestors (h ! u))). v < length h \<and> v < k"
      using anc set_iter \<open>u < length h\<close> \<open>u < Suc k\<close> by auto
    from "2.IH"[OF False wf en this] obtain new where
      run: "dfs_each iter k h (iter u (ancestors (h ! u))) (insert u visited, toposort) =
              Some (insert u visited \<union> set new, toposort @ new)"
      and dep: "dependents_first h (insert u visited) (rev new)"
      and below: "\<forall>m\<in>set new. \<exists>v\<in>ancestors (h ! u). m \<le> v \<and> m \<in> reach h v"
      and seen: "ancestors (h ! u) \<subseteq> insert u visited \<union> set new"
      using set_iter by auto
    have lt: "\<forall>m\<in>set new. m < u"
      using below anc by fastforce
    have "u \<notin> ancestors (h ! m)" if "m \<in> set new" for m
    proof
      assume mem: "u \<in> ancestors (h ! m)"
      from that lt have "m < u" by simp
      with \<open>u < length h\<close> have "m < length h" by simp
      from wf_heap_ancestors[OF wf this mem] \<open>m < u\<close> show False by simp
    qed
    then have "\<forall>m\<in>set (rev new). u \<notin> ancestors (h ! m)"
      by simp
    with dep have dep': "dependents_first h visited (rev new)"
      by (rule dependents_first_shrink)
    have notin: "u \<notin> set new"
      using lt by auto
    have anc': "ancestors (h ! u) \<subseteq> visited \<union> set new"
      using seen anc by auto
    have rch: "set new \<subseteq> reach h u"
      using below by (auto intro: reach_ancestor)
    show ?thesis
      apply (intro exI[of _ "new @ [u]"])
      using False run dep' notin anc' rch lt
      by (auto simp: less_imp_le intro: reach.root)
  qed
next
  case (3 iter k h st)
  then show ?case by (intro exI[of _ "[]"]) simp
next
  case (4 iter k h v vs st)
  note wf = \<open>wf_heap h\<close> and en = \<open>enumerates iter\<close>
  from "4.prems" have v: "v < length h" "v < k" and vs: "\<forall>v\<in>set vs. v < length h \<and> v < k"
    by auto
  from "4.IH"(1)[OF wf en v] obtain new1 where
    run1: "dfs iter k h v st = Some (fst st \<union> set new1, snd st @ new1)"
    and dep1: "dependents_first h (fst st) (rev new1)"
    and le1: "set new1 \<subseteq> {..v}" and rch1: "set new1 \<subseteq> reach h v"
    and in1: "v \<in> fst st \<union> set new1"
    by blast
  from "4.IH"(2)[OF run1 wf en vs] obtain new2 where
    run2: "dfs_each iter k h vs (fst st \<union> set new1, snd st @ new1) =
             Some (fst st \<union> set new1 \<union> set new2, (snd st @ new1) @ new2)"
    and dep2: "dependents_first h (fst st \<union> set new1) (rev new2)"
    and below2: "\<forall>m\<in>set new2. \<exists>v\<in>set vs. m \<le> v \<and> m \<in> reach h v"
    and in2: "set vs \<subseteq> fst st \<union> set new1 \<union> set new2"
    by auto
  show ?case
    apply (intro exI[of _ "new1 @ new2"])
    using run1 run2 dep1 dep2 le1 rch1 in1 below2 in2
    by (auto simp: dependents_first_append Un_assoc)
qed

section \<open>The backward pass\<close>

lemma toposort_spec:
  assumes wf: "wf_heap h" and en: "enumerates iter" and r: "r < length h" "r < fuel"
  shows "\<exists>topo. dfs iter fuel h r ({}, []) = Some (reach h r, topo) \<and> set topo = reach h r \<and>
                distinct topo \<and> dependents_first h {} (rev topo) \<and> topo \<noteq> [] \<and> last topo = r"
proof -
  from dfs_spec(1)[OF wf en r, of "({}, [])"] obtain new where
    run: "dfs iter fuel h r ({}, []) = Some (set new, new)"
    and dep: "dependents_first h {} (rev new)"
    and sub: "set new \<subseteq> reach h r" and mem: "r \<in> set new"
    and lst: "new \<noteq> []" "last new = r"
    by auto
  have "m \<in> set new" if "m \<in> reach h r" for m
    using that
  proof (induction rule: reach.induct)
    case root
    show ?case by (rule mem)
  next
    case (step u v)
    with dependents_first_closed[OF dep, of u] show ?case by auto
  qed
  with sub have eq: "set new = reach h r" by auto
  from dependents_first_distinct[OF dep] have "distinct new" by simp
  with run dep eq lst show ?thesis by auto
qed

lemma wf_heap_cong:
  assumes "length h' = length h"
    and "\<And>n. ancestors (h' ! n) = ancestors (h ! n)"
    and "\<And>n. backward_rule (h' ! n) = backward_rule (h ! n)"
  shows "wf_heap h' = wf_heap h"
  using assms by (simp add: wf_heap_def)

lemma dependents_first_cong:
  assumes "\<And>n. ancestors (h' ! n) = ancestors (h ! n)"
  shows "dependents_first h' V ns = dependents_first h V ns"
  using assms by (induction ns) auto

lemma weight_cong:
  assumes "\<And>n. val (h' ! n) = val (h ! n)"
  shows "weight pw h' c n = weight pw h c n"
  using assms by (cases c) auto

lemma raises_cong:
  assumes "\<And>n. val (h' ! n) = val (h ! n)"
  shows "raises pw h' c = raises pw h c"
  using assms by (cases c) auto

lemma weight_zero: "owned m A c \<Longrightarrow> n \<notin> A \<Longrightarrow> weight pw h c n = 0"
  by (cases c) auto

lemma sum_list_all_zero: "\<forall>x\<in>set xs. f x = (0::real) \<Longrightarrow> (\<Sum>x\<leftarrow>xs. f x) = 0"
  by (induction xs) auto

lemma run_all_frame:
  "run_all pw ns h = Inr h' \<Longrightarrow>
     length h' = length h \<and> val (h' ! n) = val (h ! n) \<and>
     backward_rule (h' ! n) = backward_rule (h ! n) \<and> ancestors (h' ! n) = ancestors (h ! n)"
proof (induction ns arbitrary: h)
  case Nil
  then show ?case by simp
next
  case (Cons m ns)
  then obtain h1 where c: "call pw (backward_rule (h ! m)) h = Inr h1"
    and r: "run_all pw ns h1 = Inr h'"
    by (auto split: sum.splits)
  from Cons.IH[OF r] call_frame[OF c] show ?case by simp
qed

lemma run_all_total:
  "\<forall>m\<in>set ns. \<not> raises pw h (backward_rule (h ! m)) \<Longrightarrow> \<exists>h'. run_all pw ns h = Inr h'"
proof (induction ns arbitrary: h)
  case Nil
  then show ?case by simp
next
  case (Cons m ns)
  then have "\<not> raises pw h (backward_rule (h ! m))" by simp
  then obtain h1 where c: "call pw (backward_rule (h ! m)) h = Inr h1"
    using call_raises[of pw "backward_rule (h ! m)" h] by (cases "call pw (backward_rule (h ! m)) h") auto
  have "\<forall>m\<in>set ns. \<not> raises pw h1 (backward_rule (h1 ! m))"
    using Cons.prems call_frame[OF c] by (simp add: raises_cong[of h1 h])
  from Cons.IH[OF this] c show ?case by simp
qed

lemma run_all_grad:
  "wf_heap h \<Longrightarrow> dependents_first h V ns \<Longrightarrow> set ns \<subseteq> {..<length h} \<Longrightarrow>
   run_all pw ns h = Inr h' \<Longrightarrow> n < length h \<Longrightarrow>
     grad (h' ! n) =
       grad (h ! n) + (\<Sum>m\<leftarrow>ns. weight pw h (backward_rule (h ! m)) n * grad (h' ! m))"
proof (induction ns arbitrary: h n)
  case Nil
  then show ?case by simp
next
  case (Cons m ns)
  from Cons.prems obtain h1 where c: "call pw (backward_rule (h ! m)) h = Inr h1"
    and r: "run_all pw ns h1 = Inr h'"
    by (auto split: sum.splits)
  note fr = call_frame[OF c]
  from Cons.prems have m: "m < length h" "m \<notin> set ns" "m \<notin> V"
    and dep: "dependents_first h V ns" and sub: "set ns \<subseteq> {..<length h}"
    by auto
  have own: "owned m (ancestors (h ! m)) (backward_rule (h ! m))"
    using Cons.prems(1) m(1) by (rule wf_heap_owned)
  have self: "m \<notin> ancestors (h ! m)"
    using wf_heap_ancestors[OF Cons.prems(1) m(1), of m] by auto
  have wf1: "wf_heap h1"
    using Cons.prems(1) fr by (simp add: wf_heap_cong[of h1 h])
  have dep1: "dependents_first h1 V ns"
    using dep fr by (simp add: dependents_first_cong[of h1 h])
  have sub1: "set ns \<subseteq> {..<length h1}"
    using sub fr by simp
  have step: "grad (h' ! j) =
      grad (h1 ! j) + (\<Sum>m'\<leftarrow>ns. weight pw h (backward_rule (h ! m')) j * grad (h' ! m'))"
    if "j < length h" for j
  proof -
    from that fr have "j < length h1" by simp
    from Cons.IH[OF wf1 dep1 sub1 r this] show ?thesis
      using fr by (simp add: weight_cong[of h1 h])
  qed
  have first: "grad (h1 ! j) = grad (h ! j) + weight pw h (backward_rule (h ! m)) j * grad (h ! m)"
    if "j < length h" for j
    using call_grad[OF c own self that] .
  have "weight pw h (backward_rule (h ! m')) m = 0" if "m' \<in> set ns" for m'
  proof -
    from that sub have m': "m' < length h" by auto
    have "ancestors (h ! m') \<subseteq> V \<union> set ns"
      using dependents_first_closed[OF dep that] .
    with m have "m \<notin> ancestors (h ! m')" by auto
    with wf_heap_owned[OF Cons.prems(1) m'] show ?thesis
      by (rule weight_zero)
  qed
  then have "(\<Sum>m'\<leftarrow>ns. weight pw h (backward_rule (h ! m')) m * grad (h' ! m')) = 0"
    by (intro sum_list_all_zero) auto
  with step[OF m(1)] first[OF m(1)] weight_zero[OF own self, of pw h]
  have same: "grad (h' ! m) = grad (h ! m)" by simp
  from step[OF Cons.prems(5)] first[OF Cons.prems(5)] same show ?case
    by simp
qed

lemma reach_unfold: "reach h r = insert r (\<Union>v\<in>ancestors (h ! r). reach h v)"
proof (intro equalityI subsetI)
  fix u assume "u \<in> reach h r"
  then show "u \<in> insert r (\<Union>v\<in>ancestors (h ! r). reach h v)"
  proof (induction rule: reach.induct)
    case root
    show ?case by simp
  next
    case (step u w)
    then show ?case
      by (auto intro: reach.root reach.step)
  qed
next
  fix u assume "u \<in> insert r (\<Union>v\<in>ancestors (h ! r). reach h v)"
  then show "u \<in> reach h r"
    by (auto intro: reach.root reach_ancestor)
qed

lemma reach_append:
  assumes "wf_heap h" "r < length h"
  shows "reach (h @ ext) r = reach h r"
proof (intro equalityI subsetI)
  fix u assume "u \<in> reach (h @ ext) r"
  then show "u \<in> reach h r"
  proof (induction rule: reach.induct)
    case root
    show ?case by (rule reach.root)
  next
    case (step u v)
    from reach_le[OF assms step.IH] assms(2) have "u < length h" by simp
    with step show ?case
      by (auto simp: nth_append intro: reach.step)
  qed
next
  fix u assume "u \<in> reach h r"
  then show "u \<in> reach (h @ ext) r"
  proof (induction rule: reach.induct)
    case root
    show ?case by (rule reach.root)
  next
    case (step u v)
    from reach_le[OF assms step.hyps(1)] assms(2) have "u < length h" by simp
    with step show ?case
      by (auto simp: nth_append intro: reach.step)
  qed
qed

lemma finite_reach: "wf_heap h \<Longrightarrow> r < length h \<Longrightarrow> finite (reach h r)"
  by (rule finite_subset[of _ "{..r}"]) (auto dest: reach_le)

lemma weight_reach_zero:
  assumes "wf_heap h" "r < length h" "m \<in> reach h r" "n \<notin> reach h r \<or> n = r"
  shows "weight pw h (backward_rule (h ! m)) n = 0"
proof -
  from reach_le[OF assms(1,2,3)] assms(2) have m: "m \<le> r" "m < length h" by auto
  have "n \<notin> ancestors (h ! m)"
  proof
    assume n: "n \<in> ancestors (h ! m)"
    then have "n \<in> reach h r" using assms(3) by (auto intro: reach.step)
    moreover from wf_heap_ancestors[OF assms(1) m(2) n] m have "n \<noteq> r" by simp
    ultimately show False using assms(4) by simp
  qed
  with wf_heap_owned[OF assms(1) m(2)] show ?thesis by (rule weight_zero)
qed

lemma backward_spec:
  assumes wf: "wf_heap h" and en: "enumerates iter" and r: "r < length h" "r < fuel"
    and nr: "\<forall>m\<in>reach h r. \<not> raises pw h (backward_rule (h ! m))"
  shows "\<exists>h'. backward iter pw fuel r h = Some (Inr h') \<and> length h' = length h \<and>
           (\<forall>n. val (h' ! n) = val (h ! n) \<and> backward_rule (h' ! n) = backward_rule (h ! n) \<and>
                ancestors (h' ! n) = ancestors (h ! n)) \<and>
           (\<forall>n<length h. grad (h' ! n) = (if n = r then 1 else grad (h ! n)) +
                (\<Sum>m\<in>reach h r. weight pw h (backward_rule (h ! m)) n * grad (h' ! m)))"
proof -
  from toposort_spec[OF wf en r] obtain topo where
    run: "dfs iter fuel h r ({}, []) = Some (reach h r, topo)"
    and set: "set topo = reach h r" and dist: "distinct topo"
    and dep: "dependents_first h {} (rev topo)"
    by blast
  let ?h0 = "set_grad r 1 h"
  have wf0: "wf_heap ?h0"
    using wf by (simp add: wf_heap_cong[of ?h0 h])
  have dep0: "dependents_first ?h0 {} (rev topo)"
    using dep by (simp add: dependents_first_cong[of ?h0 h])
  have sub0: "set (rev topo) \<subseteq> {..<length ?h0}"
    using set reach_le[OF wf r(1)] r(1) by fastforce
  have "\<forall>m\<in>set (rev topo). \<not> raises pw ?h0 (backward_rule (?h0 ! m))"
    using nr set by (simp add: raises_cong[of ?h0 h])
  from run_all_total[OF this] obtain h' where h': "run_all pw (rev topo) ?h0 = Inr h'"
    by blast
  note fr = run_all_frame[OF h']
  have bw: "backward iter pw fuel r h = Some (Inr h')"
    using run h' by (simp add: backward_def)
  have "grad (h' ! n) = (if n = r then 1 else grad (h ! n)) +
          (\<Sum>m\<in>reach h r. weight pw h (backward_rule (h ! m)) n * grad (h' ! m))"
    if n: "n < length h" for n
  proof -
    from n have "n < length ?h0" by simp
    from run_all_grad[OF wf0 dep0 sub0 h' this]
    have "grad (h' ! n) = grad (?h0 ! n) +
            (\<Sum>m\<leftarrow>rev topo. weight pw h (backward_rule (h ! m)) n * grad (h' ! m))"
      by (simp add: weight_cong[of ?h0 h])
    also have "(\<Sum>m\<leftarrow>rev topo. weight pw h (backward_rule (h ! m)) n * grad (h' ! m)) =
            (\<Sum>m\<in>reach h r. weight pw h (backward_rule (h ! m)) n * grad (h' ! m))"
      using dist set by (simp add: sum_list_distinct_conv_sum_set)
    finally show ?thesis
      using n by (simp add: grad_set_grad)
  qed
  with bw fr show ?thesis by auto
qed

section \<open>The operators\<close>

lemma wf_heap_Nil: "wf_heap []"
  by (simp add: wf_heap_def)

lemma wf_heap_snoc:
  "wf_heap (h @ [x]) \<longleftrightarrow>
     wf_heap h \<and> ancestors x \<subseteq> {..<length h} \<and> owned (length h) (ancestors x) (backward_rule x)"
  by (auto simp: wf_heap_def nth_append less_Suc_eq)

lemma Scalar_add_Obj:
  "Scalar_add a (Obj b) h =
     (length h, h @ [\<lparr>val = val (h ! a) + val (h ! b), grad = 0,
                      backward_rule = AddBackward a b (length h), ancestors = {a, b}\<rparr>])"
  by (simp add: Scalar_add_def Scalar_init_def set_backward_def nth_append)

lemma Scalar_mul_Obj:
  "Scalar_mul a (Obj b) h =
     (length h, h @ [\<lparr>val = val (h ! a) * val (h ! b), grad = 0,
                      backward_rule = MulBackward a b (length h), ancestors = {a, b}\<rparr>])"
  by (simp add: Scalar_mul_def Scalar_init_def set_backward_def nth_append)

lemma Scalar_add_Num:
  "a < length h \<Longrightarrow> Scalar_add a (Num c) h =
     (Suc (length h),
      h @ [\<lparr>val = c, grad = 0, backward_rule = Noop, ancestors = {}\<rparr>,
           \<lparr>val = val (h ! a) + c, grad = 0,
            backward_rule = AddBackward a (length h) (Suc (length h)), ancestors = {a, length h}\<rparr>])"
  by (simp add: Scalar_add_def Scalar_init_def set_backward_def nth_append)

lemma Scalar_mul_Num:
  "a < length h \<Longrightarrow> Scalar_mul a (Num c) h =
     (Suc (length h),
      h @ [\<lparr>val = c, grad = 0, backward_rule = Noop, ancestors = {}\<rparr>,
           \<lparr>val = val (h ! a) * c, grad = 0,
            backward_rule = MulBackward a (length h) (Suc (length h)), ancestors = {a, length h}\<rparr>])"
  by (simp add: Scalar_mul_def Scalar_init_def set_backward_def nth_append)

lemma received_cong:
  assumes "\<And>m. m \<in> S \<Longrightarrow> val (h' ! m) = val (h ! m)" "\<And>n. val (h' ! n) = val (h ! n)"
    "\<And>m. m \<in> S \<Longrightarrow> backward_rule (h' ! m) = backward_rule (h ! m)"
    "\<And>m. m \<in> S \<Longrightarrow> grad (h' ! m) = grad (h ! m)"
  shows "received pw h' S n = received pw h S n"
  unfolding received_def using assms
  by (intro sum.cong) (auto simp: weight_cong[of h' h])

lemma received_zero:
  assumes "wf_heap h" "r < length h" "n \<notin> reach h r \<or> n = r"
  shows "received pw h (reach h r) n = 0"
  unfolding received_def using weight_reach_zero[OF assms(1,2) _ assms(3)]
  by (intro sum.neutral) auto

text \<open>
  The backward pass from a node that was just created: the store is \<open>h\<close> with the new
  node \<open>x\<close> at its end.
\<close>

lemma backward_fresh_root:
  assumes wf: "wf_heap h" and en: "enumerates iter" and fuel: "length h < fuel"
    and anc: "ancestors x \<subseteq> {..<length h}"
    and own: "owned (length h) (ancestors x) (backward_rule x)"
    and nrx: "\<not> raises pw (h @ [x]) (backward_rule x)"
    and nr: "\<forall>a\<in>ancestors x. \<forall>m\<in>reach h a. \<not> raises pw h (backward_rule (h ! m))"
  shows "\<exists>h2. backward iter pw fuel (length h) (h @ [x]) = Some (Inr h2) \<and>
           length h2 = Suc (length h) \<and> grad (h2 ! length h) = 1 \<and>
           (\<forall>n. val (h2 ! n) = val ((h @ [x]) ! n) \<and>
                backward_rule (h2 ! n) = backward_rule ((h @ [x]) ! n) \<and>
                ancestors (h2 ! n) = ancestors ((h @ [x]) ! n)) \<and>
           (\<forall>n<length h. grad (h2 ! n) =
                grad (h ! n) + weight pw (h @ [x]) (backward_rule x) n * grad (h2 ! length h) +
                received pw h2 (\<Union>a\<in>ancestors x. reach h a) n)"
proof -
  let ?h1 = "h @ [x]" and ?r = "length h" and ?S = "\<Union>a\<in>ancestors x. reach h a"
  have wf1: "wf_heap ?h1"
    using wf anc own by (simp add: wf_heap_snoc)
  have r: "?r < length ?h1" by simp
  have S_lt: "m < length h" if "m \<in> ?S" for m
    using that anc reach_le[OF wf] by fastforce
  have reach1: "reach ?h1 ?r = insert ?r ?S"
  proof -
    have "reach ?h1 a = reach h a" if "a \<in> ancestors x" for a
      using that anc by (intro reach_append[OF wf]) auto
    then show ?thesis
      by (subst reach_unfold) simp
  qed
  have nr1: "\<forall>m\<in>reach ?h1 ?r. \<not> raises pw ?h1 (backward_rule (?h1 ! m))"
  proof
    fix m assume "m \<in> reach ?h1 ?r"
    then consider "m = ?r" | "m \<in> ?S" using reach1 by auto
    then show "\<not> raises pw ?h1 (backward_rule (?h1 ! m))"
    proof cases
      case 1
      with nrx show ?thesis by simp
    next
      case 2
      then have lt: "m < length h" by (rule S_lt)
      have "raises pw ?h1 (backward_rule (h ! m)) = raises pw h (backward_rule (h ! m))"
      proof (cases "backward_rule (h ! m)")
        case (PowBackward s p q)
        with wf_heap_owned[OF wf lt] wf_heap_ancestors[OF wf lt, of s] lt
        show ?thesis by (simp add: nth_append)
      qed simp_all
      with 2 nr lt show ?thesis by (auto simp: nth_append)
    qed
  qed
  from backward_spec[OF wf1 en r fuel nr1] obtain h2 where
    bw: "backward iter pw fuel ?r ?h1 = Some (Inr h2)" and len: "length h2 = length ?h1"
    and fr: "\<And>n. val (h2 ! n) = val (?h1 ! n) \<and> backward_rule (h2 ! n) = backward_rule (?h1 ! n) \<and>
                ancestors (h2 ! n) = ancestors (?h1 ! n)"
    and gr: "\<And>n. n < length ?h1 \<Longrightarrow> grad (h2 ! n) = (if n = ?r then 1 else grad (?h1 ! n)) +
                (\<Sum>m\<in>reach ?h1 ?r. weight pw ?h1 (backward_rule (?h1 ! m)) n * grad (h2 ! m))"
    by blast
  have finS: "finite ?S" and rS: "?r \<notin> ?S"
    using S_lt by (auto intro: finite_subset[of _ "{..<length h}"])
  have sum1: "(\<Sum>m\<in>reach ?h1 ?r. weight pw ?h1 (backward_rule (?h1 ! m)) n * grad (h2 ! m)) =
          weight pw ?h1 (backward_rule x) n * grad (h2 ! ?r) + received pw h2 ?S n" for n
  proof -
    have "(\<Sum>m\<in>?S. weight pw ?h1 (backward_rule (?h1 ! m)) n * grad (h2 ! m)) = received pw h2 ?S n"
      unfolding received_def using fr
      by (intro sum.cong) (auto simp: weight_cong[of h2 ?h1])
    then show ?thesis
      using finS rS by (simp add: reach1)
  qed
  have root: "grad (h2 ! ?r) = 1"
  proof -
    have "weight pw ?h1 (backward_rule (?h1 ! m)) ?r = 0" if "m \<in> reach ?h1 ?r" for m
      using weight_reach_zero[OF wf1 r that] by simp
    then have "(\<Sum>m\<in>reach ?h1 ?r. weight pw ?h1 (backward_rule (?h1 ! m)) ?r * grad (h2 ! m)) = 0"
      by (intro sum.neutral) auto
    with gr[OF r] show ?thesis by simp
  qed
  have "grad (h2 ! n) = grad (h ! n) + weight pw ?h1 (backward_rule x) n * grad (h2 ! ?r) +
          received pw h2 ?S n" if "n < length h" for n
    using gr[of n] that sum1[of n] by (simp add: nth_append)
  with bw len fr root show ?thesis by auto
qed

lemma weight_transfer:
  assumes wf: "wf_heap h" and m: "m < length h"
    and fr: "\<And>n. val (h2 ! n) = val ((h @ ext) ! n) \<and>
                 backward_rule (h2 ! n) = backward_rule ((h @ ext) ! n)"
  shows "weight pw h2 (backward_rule (h2 ! m)) n = weight pw h (backward_rule (h ! m)) n"
proof -
  have lt: "v < length h" if "v \<in> ancestors (h ! m)" for v
    using wf_heap_ancestors[OF wf m that] m by simp
  have v: "val (h2 ! v) = val (h ! v)" if "v < length h" for v
    using fr[of v] that by (simp add: nth_append)
  have rule: "backward_rule (h2 ! m) = backward_rule (h ! m)"
    using fr[of m] m by (simp add: nth_append)
  show ?thesis
    unfolding rule using wf_heap_owned[OF wf m] lt v m
    by (cases "backward_rule (h ! m)") auto
qed

lemma received_zero_after:
  assumes wf: "wf_heap h" and r: "r < length h"
    and fr: "\<And>n. val (h2 ! n) = val ((h @ ext) ! n) \<and>
                 backward_rule (h2 ! n) = backward_rule ((h @ ext) ! n)"
    and n: "n \<notin> reach h r \<or> n = r"
  shows "received pw h2 (reach h r) n = 0"
  unfolding received_def
proof (intro sum.neutral ballI)
  fix m assume mem: "m \<in> reach h r"
  with reach_le[OF wf r] r have "m < length h" by fastforce
  from weight_transfer[OF wf this fr, of pw n] weight_reach_zero[OF wf r mem n, of pw]
  show "weight pw h2 (backward_rule (h2 ! m)) n * grad (h2 ! m) = 0" by simp
qed

lemma received_Un_left:
  assumes "finite A" "finite B" "received pw h A n = 0"
    "\<forall>m\<in>A. weight pw h (backward_rule (h ! m)) n = 0"
  shows "received pw h (A \<union> B) n = received pw h B n"
  unfolding received_def using assms
  by (intro sum.mono_neutral_right) auto

lemma received_own:
  assumes wf: "wf_heap h" and a: "a < length h" and b: "b < length h"
    and fr: "\<And>n. val (h2 ! n) = val ((h @ ext) ! n) \<and>
                 backward_rule (h2 ! n) = backward_rule ((h @ ext) ! n)"
  shows "received pw h2 (reach h a \<union> reach h b) a = received pw h2 (reach h b) a"
    and "received pw h2 (reach h a \<union> reach h b) b = received pw h2 (reach h a) b"
proof -
  have z: "weight pw h2 (backward_rule (h2 ! m)) r = 0" if "m \<in> reach h r" "r < length h" for m r
  proof -
    from reach_le[OF wf that(2) that(1)] that(2) have "m < length h" by simp
    from weight_transfer[OF wf this fr, of pw r] weight_reach_zero[OF wf that(2) that(1), of r pw]
    show ?thesis by simp
  qed
  show "received pw h2 (reach h a \<union> reach h b) a = received pw h2 (reach h b) a"
    unfolding received_def using z[OF _ a] finite_reach[OF wf a] finite_reach[OF wf b]
    by (intro sum.mono_neutral_right) auto
  show "received pw h2 (reach h a \<union> reach h b) b = received pw h2 (reach h a) b"
    unfolding received_def using z[OF _ b] finite_reach[OF wf a] finite_reach[OF wf b]
    by (intro sum.mono_neutral_right) auto
qed

lemma add_backward:
  assumes wf: "wf_heap h" and en: "enumerates iter" and a: "a < length h" and b: "b < length h"
    and fuel: "length h < fuel"
    and nr: "\<forall>m\<in>reach h a \<union> reach h b. \<not> raises pw h (backward_rule (h ! m))"
  shows "case Scalar_add a (Obj b) h of (y, h1) \<Rightarrow>
           \<exists>h2. backward iter pw fuel y h1 = Some (Inr h2) \<and> grad (h2 ! y) = 1 \<and>
             grad (h2 ! a) = grad (h ! a) + grad (h2 ! y) +
                (if a = b then grad (h2 ! y) else 0) + received pw h2 (reach h b) a \<and>
             grad (h2 ! b) = grad (h ! b) + grad (h2 ! y) +
                (if a = b then grad (h2 ! y) else 0) + received pw h2 (reach h a) b \<and>
             (a \<notin> reach h b \<or> a = b \<longrightarrow> received pw h2 (reach h b) a = 0) \<and>
             (b \<notin> reach h a \<or> a = b \<longrightarrow> received pw h2 (reach h a) b = 0)"
proof -
  let ?x = "\<lparr>val = val (h ! a) + val (h ! b), grad = 0,
             backward_rule = AddBackward a b (length h), ancestors = {a, b}\<rparr>"
  have "\<exists>h2. backward iter pw fuel (length h) (h @ [?x]) = Some (Inr h2) \<and>
           length h2 = Suc (length h) \<and> grad (h2 ! length h) = 1 \<and>
           (\<forall>n. val (h2 ! n) = val ((h @ [?x]) ! n) \<and>
                backward_rule (h2 ! n) = backward_rule ((h @ [?x]) ! n) \<and>
                ancestors (h2 ! n) = ancestors ((h @ [?x]) ! n)) \<and>
           (\<forall>n<length h. grad (h2 ! n) =
                grad (h ! n) + weight pw (h @ [?x]) (backward_rule ?x) n * grad (h2 ! length h) +
                received pw h2 (\<Union>a\<in>ancestors ?x. reach h a) n)"
    using a b nr by (intro backward_fresh_root[OF wf en fuel]) auto
  then obtain h2 where bw: "backward iter pw fuel (length h) (h @ [?x]) = Some (Inr h2)"
    and root: "grad (h2 ! length h) = 1"
    and fr: "\<And>n. val (h2 ! n) = val ((h @ [?x]) ! n) \<and>
                backward_rule (h2 ! n) = backward_rule ((h @ [?x]) ! n)"
    and gr: "\<And>n. n < length h \<Longrightarrow> grad (h2 ! n) =
                grad (h ! n) + weight pw (h @ [?x]) (backward_rule ?x) n * grad (h2 ! length h) +
                received pw h2 (reach h a \<union> reach h b) n"
    by auto
  note own = received_own[OF wf a b fr, of pw]
  have za: "a \<notin> reach h b \<or> a = b \<longrightarrow> received pw h2 (reach h b) a = 0"
    using received_zero_after[OF wf b fr, of a pw] by auto
  have zb: "b \<notin> reach h a \<or> a = b \<longrightarrow> received pw h2 (reach h a) b = 0"
    using received_zero_after[OF wf a fr, of b pw] by auto
  show ?thesis
    unfolding Scalar_add_Obj using bw root gr[OF a] gr[OF b] own za zb a b
    by simp
qed


lemma mul_backward:
  assumes wf: "wf_heap h" and en: "enumerates iter" and a: "a < length h" and b: "b < length h"
    and fuel: "length h < fuel"
    and nr: "\<forall>m\<in>reach h a \<union> reach h b. \<not> raises pw h (backward_rule (h ! m))"
  shows "case Scalar_mul a (Obj b) h of (y, h1) \<Rightarrow>
           \<exists>h2. backward iter pw fuel y h1 = Some (Inr h2) \<and> grad (h2 ! y) = 1 \<and>
             grad (h2 ! a) = grad (h ! a) + val (h ! b) * grad (h2 ! y) +
                (if a = b then val (h ! a) * grad (h2 ! y) else 0) + received pw h2 (reach h b) a \<and>
             grad (h2 ! b) = grad (h ! b) + val (h ! a) * grad (h2 ! y) +
                (if a = b then val (h ! b) * grad (h2 ! y) else 0) + received pw h2 (reach h a) b \<and>
             (a \<notin> reach h b \<or> a = b \<longrightarrow> received pw h2 (reach h b) a = 0) \<and>
             (b \<notin> reach h a \<or> a = b \<longrightarrow> received pw h2 (reach h a) b = 0)"
proof -
  let ?x = "\<lparr>val = val (h ! a) * val (h ! b), grad = 0,
             backward_rule = MulBackward a b (length h), ancestors = {a, b}\<rparr>"
  have "\<exists>h2. backward iter pw fuel (length h) (h @ [?x]) = Some (Inr h2) \<and>
           length h2 = Suc (length h) \<and> grad (h2 ! length h) = 1 \<and>
           (\<forall>n. val (h2 ! n) = val ((h @ [?x]) ! n) \<and>
                backward_rule (h2 ! n) = backward_rule ((h @ [?x]) ! n) \<and>
                ancestors (h2 ! n) = ancestors ((h @ [?x]) ! n)) \<and>
           (\<forall>n<length h. grad (h2 ! n) =
                grad (h ! n) + weight pw (h @ [?x]) (backward_rule ?x) n * grad (h2 ! length h) +
                received pw h2 (\<Union>a\<in>ancestors ?x. reach h a) n)"
    using a b nr by (intro backward_fresh_root[OF wf en fuel]) auto
  then obtain h2 where bw: "backward iter pw fuel (length h) (h @ [?x]) = Some (Inr h2)"
    and root: "grad (h2 ! length h) = 1"
    and fr: "\<And>n. val (h2 ! n) = val ((h @ [?x]) ! n) \<and>
                backward_rule (h2 ! n) = backward_rule ((h @ [?x]) ! n)"
    and gr: "\<And>n. n < length h \<Longrightarrow> grad (h2 ! n) =
                grad (h ! n) + weight pw (h @ [?x]) (backward_rule ?x) n * grad (h2 ! length h) +
                received pw h2 (reach h a \<union> reach h b) n"
    by auto
  note own = received_own[OF wf a b fr, of pw]
  have za: "a \<notin> reach h b \<or> a = b \<longrightarrow> received pw h2 (reach h b) a = 0"
    using received_zero_after[OF wf b fr, of a pw] by auto
  have zb: "b \<notin> reach h a \<or> a = b \<longrightarrow> received pw h2 (reach h a) b = 0"
    using received_zero_after[OF wf a fr, of b pw] by auto
  show ?thesis
    unfolding Scalar_mul_Obj using bw root gr[OF a] gr[OF b] own za zb a b
    by (simp add: nth_append)
qed



lemma raises_never: "raises (\<lambda>x p. Inr q) h c = False"
  by (cases c) simp_all

lemma enumerates_sorted: "enumerates (\<lambda>u. sorted_list_of_set)"
  by (simp add: enumerates_def)


section \<open>The order of the calls and an example\<close>

lemma dependents_first_index:
  "dependents_first h V ns \<Longrightarrow> i < length ns \<Longrightarrow> j < length ns \<Longrightarrow>
     ns ! j \<in> ancestors (h ! (ns ! i)) \<Longrightarrow> i < j"
proof (induction ns arbitrary: i j)
  case Nil
  then show ?case by simp
next
  case (Cons m ns)
  from Cons.prems(1) have m: "m \<notin> set ns" "m \<notin> V" "ancestors (h ! m) \<subseteq> V \<union> set ns"
    and dep: "dependents_first h V ns"
    by auto
  show ?case
  proof (cases i)
    case 0
    show ?thesis
    proof (cases j)
      case 0
      with \<open>i = 0\<close> Cons.prems(4) m show ?thesis by auto
    next
      case (Suc j')
      with \<open>i = 0\<close> show ?thesis by simp
    qed
  next
    case (Suc i')
    show ?thesis
    proof (cases j)
      case 0
      from Suc Cons.prems(2) have "ns ! i' \<in> set ns" by simp
      from dependents_first_closed[OF dep this] 0 Suc Cons.prems(4) m
      show ?thesis by auto
    next
      case (Suc j')
      with \<open>i = Suc i'\<close> Cons.prems Cons.IH[OF dep, of i' j'] show ?thesis by simp
    qed
  qed
qed

lemma dependents_first_take:
  "dependents_first h V (rev xs) \<Longrightarrow> i < length xs \<Longrightarrow>
     ancestors (h ! (xs ! i)) \<subseteq> V \<union> set (take i xs)"
proof (induction xs arbitrary: i rule: rev_induct)
  case Nil
  then show ?case by simp
next
  case (snoc x xs)
  from snoc.prems(1) have x: "ancestors (h ! x) \<subseteq> V \<union> set xs"
    and dep: "dependents_first h V (rev xs)"
    by auto
  show ?case
  proof (cases "i < length xs")
    case True
    with snoc.IH[OF dep True] show ?thesis by (simp add: nth_append)
  next
    case False
    with snoc.prems(2) have "i = length xs" by simp
    with x show ?thesis by simp
  qed
qed


lemma diamond_example:
  assumes en: "enumerates iter" and fuel: "5 < fuel"
  shows "(let (a, h1) = Scalar_init av [] [];
              (b, h2) = Scalar_init bv [] h1;
              (c, h3) = Scalar_init cv [] h2;
              (ab, h4) = Scalar_mul a (Obj b) h3;
              (ac, h5) = Scalar_mul a (Obj c) h4;
              (d, h6) = Scalar_add ab (Obj ac) h5
          in \<exists>h7. backward iter pw fuel d h6 = Some (Inr h7) \<and> grad (h7 ! a) = bv + cv)"
proof -
  let ?h = "[\<lparr>val = av, grad = 0, backward_rule = Noop, ancestors = {}\<rparr>,
             \<lparr>val = bv, grad = 0, backward_rule = Noop, ancestors = {}\<rparr>,
             \<lparr>val = cv, grad = 0, backward_rule = Noop, ancestors = {}\<rparr>,
             \<lparr>val = av * bv, grad = 0, backward_rule = MulBackward 0 (Suc 0) 3,
               ancestors = {0, Suc 0}\<rparr>,
             \<lparr>val = av * cv, grad = 0, backward_rule = MulBackward 0 2 4, ancestors = {0, 2}\<rparr>,
             \<lparr>val = av * bv + av * cv, grad = 0, backward_rule = AddBackward 3 4 5,
               ancestors = {3, 4}\<rparr>]"
  have wf: "wf_heap ?h"
    by (auto simp: wf_heap_def less_Suc_eq eval_nat_numeral)
  have r0: "reach ?h 0 = {0}" and r1: "reach ?h (Suc 0) = {Suc 0}" and r2: "reach ?h 2 = {2}"
    by (subst reach_unfold, simp)+
  have r3: "reach ?h 3 = {3, 0, Suc 0}"
    by (subst reach_unfold) (auto simp: r0 r1)
  have r4: "reach ?h 4 = {4, 0, 2}"
    by (subst reach_unfold) (auto simp: r0 r2)
  have r5: "reach ?h 5 = {5, 3, 0, Suc 0, 4, 2}"
    by (subst reach_unfold) (auto simp: r3 r4)
  have nr: "\<forall>m\<in>reach ?h 5. \<not> raises pw ?h (backward_rule (?h ! m))"
    by (simp add: r5)
  from backward_spec[OF wf en _ fuel nr] obtain h7 where
    bw: "backward iter pw fuel 5 ?h = Some (Inr h7)"
    and gr: "\<And>n. n < 6 \<Longrightarrow> grad (h7 ! n) = (if n = 5 then 1 else grad (?h ! n)) +
                (\<Sum>m\<in>reach ?h 5. weight pw ?h (backward_rule (?h ! m)) n * grad (h7 ! m))"
    by auto
  have g5: "grad (h7 ! 5) = 1"
    using gr[of 5] by (simp add: r5)
  have g3: "grad (h7 ! 3) = 1"
    using gr[of 3] g5 by (simp add: r5)
  have g4: "grad (h7 ! 4) = 1"
    using gr[of 4] g5 by (simp add: r5)
  have g0: "grad (h7 ! 0) = bv + cv"
    using gr[of 0] g3 g4 by (simp add: r5)
  have build: "(let (a, h1) = Scalar_init av [] [];
              (b, h2) = Scalar_init bv [] h1;
              (c, h3) = Scalar_init cv [] h2;
              (ab, h4) = Scalar_mul a (Obj b) h3;
              (ac, h5) = Scalar_mul a (Obj c) h4;
              (d, h6) = Scalar_add ab (Obj ac) h5
          in P a d h6) = P 0 5 ?h" for P :: "ref \<Rightarrow> ref \<Rightarrow> heap \<Rightarrow> bool"
    by (simp add: Scalar_init_def Scalar_mul_Obj Scalar_add_Obj eval_nat_numeral)
  show ?thesis
    unfolding build using bw g0 by blast
qed

section \<open>The activation functions\<close>

lemma add_grad_zero: "add_grad a 0 h = h"
  by (simp add: add_grad_def set_grad_def list_update_same_conv list_update_beyond not_less
      split: if_splits)

lemma Scalar_relu_eq:
  "Scalar_relu a h =
     (length h, h @ [\<lparr>val = (if val (h ! a) < 0 then 0 else val (h ! a)), grad = 0,
                      backward_rule = ReluBackward a (length h), ancestors = {a}\<rparr>])"
  by (simp add: Scalar_relu_def Scalar_init_def set_backward_def)









section \<open>Plain numbers as operands\<close>

lemma raises_append:
  assumes wf: "wf_heap h" and m: "m < length h"
  shows "raises pw (h @ ext) (backward_rule (h ! m)) = raises pw h (backward_rule (h ! m))"
proof (cases "backward_rule (h ! m)")
  case (PowBackward s p q)
  with wf_heap_owned[OF wf m] wf_heap_ancestors[OF wf m, of s] m
  show ?thesis by (simp add: nth_append)
qed simp_all

lemma leaf_backward:
  assumes wf: "wf_heap h" and en: "enumerates iter" and x: "x < length h"
    and fuel: "Suc (length h) < fuel"
    and nr: "\<forall>m\<in>reach h x. \<not> raises pw h (backward_rule (h ! m))"
  shows "(case Scalar_add x (Num c) h of (y, h1) \<Rightarrow>
           val (h1 ! y) = val (h ! x) + c \<and>
           (\<exists>h2. backward iter pw fuel y h1 = Some (Inr h2) \<and>
                 grad (h2 ! x) = grad (h ! x) + 1))"
    and "(case Scalar_mul x (Num c) h of (y, h1) \<Rightarrow>
           val (h1 ! y) = val (h ! x) * c \<and>
           (\<exists>h2. backward iter pw fuel y h1 = Some (Inr h2) \<and>
                 grad (h2 ! x) = grad (h ! x) + c))"
proof -
  let ?k = "\<lparr>val = c, grad = 0, backward_rule = Noop, ancestors = {}\<rparr>"
  let ?h = "h @ [?k]"
  have wf': "wf_heap ?h"
    using wf by (simp add: wf_heap_snoc)
  have x': "x < length ?h" and b': "length h < length ?h" and fuel': "length ?h < fuel"
    using x fuel by simp_all
  have rx: "reach ?h x = reach h x"
    by (rule reach_append[OF wf x])
  have rb: "reach ?h (length h) = {length h}"
    by (subst reach_unfold) simp
  have nr': "\<forall>m\<in>reach ?h x \<union> reach ?h (length h). \<not> raises pw ?h (backward_rule (?h ! m))"
  proof
    fix m assume "m \<in> reach ?h x \<union> reach ?h (length h)"
    then consider "m \<in> reach h x" | "m = length h" using rx rb by auto
    then show "\<not> raises pw ?h (backward_rule (?h ! m))"
    proof cases
      case 1
      with reach_le[OF wf x] x have lt: "m < length h" by fastforce
      with nr 1 raises_append[OF wf lt, of pw "[?k]"] show ?thesis
        by (simp add: nth_append)
    next
      case 2
      then show ?thesis by simp
    qed
  qed
  have notin: "x \<notin> reach ?h (length h)"
    using x by (simp add: rb)
  have addeq: "Scalar_add x (Num c) h = Scalar_add x (Obj (length h)) ?h"
    using x by (simp add: Scalar_add_Num Scalar_add_Obj nth_append)
  have muleq: "Scalar_mul x (Num c) h = Scalar_mul x (Obj (length h)) ?h"
    using x by (simp add: Scalar_mul_Num Scalar_mul_Obj nth_append)
  from add_backward[OF wf' en x' b' fuel' nr'] notin x
  show "(case Scalar_add x (Num c) h of (y, h1) \<Rightarrow>
           val (h1 ! y) = val (h ! x) + c \<and>
           (\<exists>h2. backward iter pw fuel y h1 = Some (Inr h2) \<and>
                 grad (h2 ! x) = grad (h ! x) + 1))"
    unfolding addeq by (auto simp: Scalar_add_Obj nth_append)
  from mul_backward[OF wf' en x' b' fuel' nr'] notin x
  show "(case Scalar_mul x (Num c) h of (y, h1) \<Rightarrow>
           val (h1 ! y) = val (h ! x) * c \<and>
           (\<exists>h2. backward iter pw fuel y h1 = Some (Inr h2) \<and>
                 grad (h2 ! x) = grad (h ! x) + c))"
    unfolding muleq by (auto simp: Scalar_mul_Obj nth_append)
qed

section \<open>The weighted sum of a neuron\<close>








section \<open>Properties of the scalar engine\<close>

text \<open>
  Claim C1. Let \<open>a\<close> and \<open>b\<close> be nodes of an expression graph and \<open>root\<close> the new
  node \<open>a + b\<close>, respectively \<open>a * b\<close>. The call \<open>root.backward()\<close> returns,
  leaves \<open>root.grad = 1\<close>, and has incremented the gradient of each operand by
  \<open>root.grad\<close> for the sum, and for the product \<open>a.grad\<close> by
  \<open>b.value * root.grad\<close> and \<open>b.grad\<close> by \<open>a.value * root.grad\<close>. When \<open>a\<close> and
  \<open>b\<close> are the same node it receives both increments. Besides these increments an
  operand receives only what the closures of the nodes below the other operand pass on
  to it, which is nothing unless it is itself one of those nodes. The increments are the
  partial derivatives of the sum and of the product at \<open>a.value\<close>, \<open>b.value\<close>.
\<close>

theorem add_mul_backward:
  assumes "wf_heap h" and "enumerates iter" and "a < length h" and "b < length h"
    and "length h < fuel"
    and "\<forall>m\<in>reach h a \<union> reach h b. \<not> raises pw h (backward_rule (h ! m))"
  shows
    "(case Scalar_add a (Obj b) h of (y, h1) \<Rightarrow>
        \<exists>h2. backward iter pw fuel y h1 = Some (Inr h2) \<and> grad (h2 ! y) = 1 \<and>
          grad (h2 ! a) = grad (h ! a) + grad (h2 ! y) +
             (if a = b then grad (h2 ! y) else 0) + received pw h2 (reach h b) a \<and>
          grad (h2 ! b) = grad (h ! b) + grad (h2 ! y) +
             (if a = b then grad (h2 ! y) else 0) + received pw h2 (reach h a) b \<and>
          (a \<notin> reach h b \<or> a = b \<longrightarrow> received pw h2 (reach h b) a = 0) \<and>
          (b \<notin> reach h a \<or> a = b \<longrightarrow> received pw h2 (reach h a) b = 0)) \<and>
     (case Scalar_mul a (Obj b) h of (y, h1) \<Rightarrow>
        \<exists>h2. backward iter pw fuel y h1 = Some (Inr h2) \<and> grad (h2 ! y) = 1 \<and>
          grad (h2 ! a) = grad (h ! a) + val (h ! b) * grad (h2 ! y) +
             (if a = b then val (h ! a) * grad (h2 ! y) else 0) + received pw h2 (reach h b) a \<and>
          grad (h2 ! b) = grad (h ! b) + val (h ! a) * grad (h2 ! y) +
             (if a = b then val (h ! b) * grad (h2 ! y) else 0) + received pw h2 (reach h a) b \<and>
          (a \<notin> reach h b \<or> a = b \<longrightarrow> received pw h2 (reach h b) a = 0) \<and>
          (b \<notin> reach h a \<or> a = b \<longrightarrow> received pw h2 (reach h a) b = 0)) \<and>
     ((\<lambda>u. u + val (h ! b)) has_real_derivative 1) (at (val (h ! a))) \<and>
     ((\<lambda>u. val (h ! a) + u) has_real_derivative 1) (at (val (h ! b))) \<and>
     ((\<lambda>u. u * val (h ! b)) has_real_derivative val (h ! b)) (at (val (h ! a))) \<and>
     ((\<lambda>u. val (h ! a) * u) has_real_derivative val (h ! a)) (at (val (h ! b)))"
proof -
  have d1: "((\<lambda>u. u + val (h ! b)) has_real_derivative 1) (at (val (h ! a)))"
    by (auto intro!: derivative_eq_intros)
  have d2: "((\<lambda>u. val (h ! a) + u) has_real_derivative 1) (at (val (h ! b)))"
    by (auto intro!: derivative_eq_intros)
  have d3: "((\<lambda>u. u * val (h ! b)) has_real_derivative val (h ! b)) (at (val (h ! a)))"
    by (auto intro!: derivative_eq_intros)
  have d4: "((\<lambda>u. val (h ! a) * u) has_real_derivative val (h ! a)) (at (val (h ! b)))"
    by (auto intro!: derivative_eq_intros)
  from add_backward[OF assms] mul_backward[OF assms] d1 d2 d3 d4 show ?thesis
    by blast
qed


theorem add_mul_backward_witness:
  "wf_heap [\<lparr>val = 3, grad = 0, backward_rule = Noop, ancestors = {}\<rparr>,
            \<lparr>val = 4, grad = 0, backward_rule = Noop, ancestors = {}\<rparr>] \<and>
   enumerates (\<lambda>u. sorted_list_of_set) \<and>
   (\<exists>h2. backward (\<lambda>u. sorted_list_of_set) (\<lambda>x p. Inr 1) 3 2
            [\<lparr>val = 3, grad = 0, backward_rule = Noop, ancestors = {}\<rparr>,
             \<lparr>val = 4, grad = 0, backward_rule = Noop, ancestors = {}\<rparr>,
             \<lparr>val = 12, grad = 0, backward_rule = MulBackward 0 1 2, ancestors = {0, 1}\<rparr>]
              = Some (Inr h2) \<and>
          grad (h2 ! 0) = 4 \<and> grad (h2 ! 1) = 3)"
proof -
  let ?h = "[\<lparr>val = 3, grad = 0, backward_rule = Noop, ancestors = {}\<rparr>,
             \<lparr>val = 4, grad = 0, backward_rule = Noop, ancestors = {}\<rparr>]"
  have wf: "wf_heap ?h"
    by (auto simp: wf_heap_def less_Suc_eq)
  have r0: "reach ?h 0 = {0}" and r1: "reach ?h (Suc 0) = {Suc 0}"
    by (subst reach_unfold, simp)+
  have nr: "\<forall>m\<in>reach ?h 0 \<union> reach ?h (Suc 0).
              \<not> raises (\<lambda>x p. Inr 1) ?h (backward_rule (?h ! m))"
    by (simp add: raises_never)
  from add_mul_backward[OF wf enumerates_sorted _ _ _ nr, of 3]
  show ?thesis
    using wf enumerates_sorted
    by (auto simp: Scalar_mul_Obj r0 r1 numeral_2_eq_2 numeral_3_eq_3)
qed

text \<open>
  Claim C2. On an acyclic expression graph the traversal of \<open>backward\<close> returns; it
  visits exactly the nodes reachable from the root and records each of them once, a
  node after all its ancestors (post-order). The closures are called along the reversed
  list, the root first, so that a node comes before each of its ancestors: its closure
  runs only after the closures of all its dependents. In particular, for leaves
  \<open>a\<close>, \<open>b\<close>, \<open>c\<close> and \<open>d = (a*b) + (a*c)\<close>, the call \<open>d.backward()\<close>
  returns with \<open>a.grad = b.value + c.value\<close>.
\<close>

theorem backward_reverse_postorder:
  assumes "wf_heap h" and "enumerates iter" and "r < length h" and "r < fuel" and "5 < k"
  shows
    "(\<exists>toposort. dfs iter fuel h r ({}, []) = Some (reach h r, toposort) \<and>
        distinct toposort \<and> set toposort = reach h r \<and>
        (\<forall>i<length toposort. ancestors (h ! (toposort ! i)) \<subseteq> set (take i toposort)) \<and>
        backward iter pw fuel r h = Some (run_all pw (rev toposort) (set_grad r 1 h)) \<and>
        hd (rev toposort) = r \<and>
        (\<forall>i<length toposort. \<forall>j<length toposort.
            rev toposort ! j \<in> ancestors (h ! (rev toposort ! i)) \<longrightarrow> i < j)) \<and>
     (let (a, h1) = Scalar_init av [] [];
          (b, h2) = Scalar_init bv [] h1;
          (c, h3) = Scalar_init cv [] h2;
          (ab, h4) = Scalar_mul a (Obj b) h3;
          (ac, h5) = Scalar_mul a (Obj c) h4;
          (d, h6) = Scalar_add ab (Obj ac) h5
      in \<exists>h7. backward iter pw k d h6 = Some (Inr h7) \<and> grad (h7 ! a) = bv + cv)"
proof -
  from toposort_spec[OF assms(1-4)] obtain topo where
    run: "dfs iter fuel h r ({}, []) = Some (reach h r, topo)"
    and set: "set topo = reach h r" and dist: "distinct topo"
    and dep: "dependents_first h {} (rev topo)"
    and ne: "topo \<noteq> []" and lst: "last topo = r"
    by blast
  have post: "\<forall>i<length topo. ancestors (h ! (topo ! i)) \<subseteq> set (take i topo)"
    using dependents_first_take[OF dep] by auto
  have bw: "backward iter pw fuel r h = Some (run_all pw (rev topo) (set_grad r 1 h))"
    using run by (simp add: backward_def)
  have first: "hd (rev topo) = r"
    using ne lst by (simp add: hd_rev)
  have order: "\<forall>i<length topo. \<forall>j<length topo.
      rev topo ! j \<in> ancestors (h ! (rev topo ! i)) \<longrightarrow> i < j"
    using dependents_first_index[OF dep] by auto
  from run dist set post bw first order diamond_example[OF assms(2,5), of av bv cv pw]
  show ?thesis by blast
qed

theorem backward_reverse_postorder_witness:
  "wf_heap [\<lparr>val = 5, grad = 0, backward_rule = Noop, ancestors = {}\<rparr>,
            \<lparr>val = 10, grad = 0, backward_rule = AddBackward 0 0 (Suc 0), ancestors = {0}\<rparr>] \<and>
   enumerates (\<lambda>u. sorted_list_of_set) \<and>
   backward (\<lambda>u. sorted_list_of_set) (\<lambda>x p. Inr 1) 2 (Suc 0)
     [\<lparr>val = 5, grad = 0, backward_rule = Noop, ancestors = {}\<rparr>,
      \<lparr>val = 10, grad = 0, backward_rule = AddBackward 0 0 (Suc 0), ancestors = {0}\<rparr>] =
     Some (Inr [\<lparr>val = 5, grad = 2, backward_rule = Noop, ancestors = {}\<rparr>,
                \<lparr>val = 10, grad = 1, backward_rule = AddBackward 0 0 (Suc 0),
                  ancestors = {0}\<rparr>]) \<and>
   (\<exists>h7. backward (\<lambda>u. sorted_list_of_set) (\<lambda>x p. Inr 1) 6 5
            [\<lparr>val = 2, grad = 0, backward_rule = Noop, ancestors = {}\<rparr>,
             \<lparr>val = 3, grad = 0, backward_rule = Noop, ancestors = {}\<rparr>,
             \<lparr>val = 4, grad = 0, backward_rule = Noop, ancestors = {}\<rparr>,
             \<lparr>val = 6, grad = 0, backward_rule = MulBackward 0 (Suc 0) 3,
               ancestors = {0, Suc 0}\<rparr>,
             \<lparr>val = 8, grad = 0, backward_rule = MulBackward 0 2 4, ancestors = {0, 2}\<rparr>,
             \<lparr>val = 14, grad = 0, backward_rule = AddBackward 3 4 5, ancestors = {3, 4}\<rparr>]
              = Some (Inr h7) \<and>
          grad (h7 ! 0) = 7)"
proof -
  let ?h = "[\<lparr>val = 5, grad = 0, backward_rule = Noop, ancestors = {}\<rparr>,
             \<lparr>val = 10, grad = 0, backward_rule = AddBackward 0 0 (Suc 0), ancestors = {0}\<rparr>]"
  have wf: "wf_heap ?h"
    by (auto simp: wf_heap_def less_Suc_eq)
  from backward_reverse_postorder[OF wf enumerates_sorted, of "Suc 0" 2 6 "\<lambda>x p. Inr 1" 2 3 4]
  obtain toposort where
    d: "dfs (\<lambda>u. sorted_list_of_set) 2 ?h (Suc 0) ({}, []) = Some (reach ?h (Suc 0), toposort)"
    and bw: "backward (\<lambda>u. sorted_list_of_set) (\<lambda>x p. Inr 1) 2 (Suc 0) ?h =
               Some (run_all (\<lambda>x p. Inr 1) (rev toposort) (set_grad (Suc 0) 1 ?h))"
    and ex: "\<exists>h7. backward (\<lambda>u. sorted_list_of_set) (\<lambda>x p. Inr 1) 6 5
            [\<lparr>val = 2, grad = 0, backward_rule = Noop, ancestors = {}\<rparr>,
             \<lparr>val = 3, grad = 0, backward_rule = Noop, ancestors = {}\<rparr>,
             \<lparr>val = 4, grad = 0, backward_rule = Noop, ancestors = {}\<rparr>,
             \<lparr>val = 6, grad = 0, backward_rule = MulBackward 0 (Suc 0) 3,
               ancestors = {0, Suc 0}\<rparr>,
             \<lparr>val = 8, grad = 0, backward_rule = MulBackward 0 2 4, ancestors = {0, 2}\<rparr>,
             \<lparr>val = 14, grad = 0, backward_rule = AddBackward 3 4 5, ancestors = {3, 4}\<rparr>]
              = Some (Inr h7) \<and> grad (h7 ! 0) = 7"
    by (auto simp: Scalar_init_def Scalar_mul_Obj Scalar_add_Obj eval_nat_numeral)
  have "dfs (\<lambda>u. sorted_list_of_set) 2 ?h (Suc 0) ({}, []) = Some ({0, Suc 0}, [0, Suc 0])"
    by (simp add: numeral_2_eq_2)
  with d have "toposort = [0, Suc 0]" by simp
  with bw have "backward (\<lambda>u. sorted_list_of_set) (\<lambda>x p. Inr 1) 2 (Suc 0) ?h =
     Some (Inr [\<lparr>val = 5, grad = 2, backward_rule = Noop, ancestors = {}\<rparr>,
                \<lparr>val = 10, grad = 1, backward_rule = AddBackward 0 0 (Suc 0),
                  ancestors = {0}\<rparr>])"
    by (simp add: set_grad_def add_grad_def)
  with wf enumerates_sorted ex show ?thesis by blast
qed

text \<open>
  Claim C4. A node that is used twice receives the sum of both contributions: for
  \<open>y = x + x\<close> with \<open>x.grad\<close> initially 0, the call \<open>y.backward()\<close> returns
  and leaves \<open>x.grad = 2\<close>, although the ancestor set of \<open>y\<close> holds \<open>x\<close> once.
  For \<open>y = x * x\<close> it leaves \<open>x.grad = x.value + x.value\<close>.
\<close>

theorem add_same_node_twice:
  assumes "wf_heap h" and "enumerates iter" and "x < length h" and "length h < fuel"
    and "\<forall>m\<in>reach h x. \<not> raises pw h (backward_rule (h ! m))"
    and "grad (h ! x) = 0"
  shows
    "(case Scalar_add x (Obj x) h of (y, h1) \<Rightarrow>
        ancestors (h1 ! y) = {x} \<and> backward_rule (h1 ! y) = AddBackward x x y \<and>
        (\<exists>h2. backward iter pw fuel y h1 = Some (Inr h2) \<and> grad (h2 ! x) = 2)) \<and>
     (case Scalar_mul x (Obj x) h of (y, h1) \<Rightarrow>
        ancestors (h1 ! y) = {x} \<and> backward_rule (h1 ! y) = MulBackward x x y \<and>
        (\<exists>h2. backward iter pw fuel y h1 = Some (Inr h2) \<and>
              grad (h2 ! x) = val (h ! x) + val (h ! x)))"
proof -
  have nr: "\<forall>m\<in>reach h x \<union> reach h x. \<not> raises pw h (backward_rule (h ! m))"
    using assms(5) by simp
  from add_backward[OF assms(1,2,3,3,4) nr] mul_backward[OF assms(1,2,3,3,4) nr] assms(6)
  show ?thesis
    by (auto simp: Scalar_add_Obj Scalar_mul_Obj)
qed

theorem add_same_node_twice_witness:
  "wf_heap [\<lparr>val = 5, grad = 0, backward_rule = Noop, ancestors = {}\<rparr>] \<and>
   enumerates (\<lambda>u. sorted_list_of_set) \<and>
   (\<exists>h2. backward (\<lambda>u. sorted_list_of_set) (\<lambda>x p. Inr 1) 2 1
            [\<lparr>val = 5, grad = 0, backward_rule = Noop, ancestors = {}\<rparr>,
             \<lparr>val = 10, grad = 0, backward_rule = AddBackward 0 0 1, ancestors = {0}\<rparr>]
              = Some (Inr h2) \<and>
          grad (h2 ! 0) = 2)"
proof -
  let ?h = "[\<lparr>val = 5, grad = 0, backward_rule = Noop, ancestors = {}\<rparr>]"
  have wf: "wf_heap ?h"
    by (auto simp: wf_heap_def)
  have nr: "\<forall>m\<in>reach ?h 0. \<not> raises (\<lambda>x p. Inr 1) ?h (backward_rule (?h ! m))"
    by (simp add: raises_never)
  have g: "grad (?h ! 0) = 0" by simp
  from add_same_node_twice[OF wf enumerates_sorted _ _ nr g, of 2]
  show ?thesis
    using wf enumerates_sorted
    by (auto simp: Scalar_add_Obj numeral_2_eq_2)
qed

text \<open>
  Claim C3. The class defines division under the name \<open>__div__\<close>, with the body
  \<open>self * other**-1\<close>, that is multiply(a, power(b, -1)). Python 3 looks up
  \<open>__truediv__\<close> and \<open>__rtruediv__\<close> for the operator \<open>/\<close>, which the class does
  not define: the expression \<open>a / b\<close> raises \<open>TypeError\<close> for every right operand and
  builds no node, and so does \<open>c / b\<close> for a number \<open>c\<close>.
\<close>

theorem slash_is_not_defined:
  "Scalar_op ''__truediv__'' pw a other h = Inl TypeError \<and>
   number_op_Scalar ''__rtruediv__'' pw c b h = Inl TypeError \<and>
   map_of Scalar_binary ''__div__'' = Some Scalar_div \<and>
   Scalar_div pw a (Obj b) h =
     (case Scalar_pow pw b (- 1) h of
        Inl e \<Rightarrow> Inl e
      | Inr (q, h1) \<Rightarrow> Inr (Scalar_mul a (Obj q) h1))"
  by (simp add: Scalar_op_def number_op_Scalar_def Scalar_binary_def Scalar_div_def)

text \<open>
  Claim C7. The call \<open>r.backward()\<close> returns with \<open>r.grad = 1\<close>, whatever the
  gradient of the root was before. The gradient of no other node is reset: a node
  reachable from the root ends with the gradient it held when the call started plus what
  it received from the closures of the reachable nodes, and every other node keeps its
  gradient. Values, closures and ancestor sets are not changed.
\<close>

theorem backward_seed_and_accumulate:
  assumes "wf_heap h" and "enumerates iter" and "r < length h" and "r < fuel"
    and "\<forall>m\<in>reach h r. \<not> raises pw h (backward_rule (h ! m))"
  shows "\<exists>h'. backward iter pw fuel r h = Some (Inr h') \<and> grad (h' ! r) = 1 \<and>
           (\<forall>n\<in>reach h r. n \<noteq> r \<longrightarrow>
               grad (h' ! n) = grad (h ! n) + received pw h' (reach h r) n) \<and>
           (\<forall>n<length h. n \<notin> reach h r \<longrightarrow> grad (h' ! n) = grad (h ! n)) \<and>
           (\<forall>n. val (h' ! n) = val (h ! n) \<and> backward_rule (h' ! n) = backward_rule (h ! n) \<and>
                ancestors (h' ! n) = ancestors (h ! n))"
proof -
  from backward_spec[OF assms] obtain h' where
    bw: "backward iter pw fuel r h = Some (Inr h')"
    and fr: "\<And>n. val (h' ! n) = val (h ! n) \<and> backward_rule (h' ! n) = backward_rule (h ! n) \<and>
                ancestors (h' ! n) = ancestors (h ! n)"
    and gr: "\<And>n. n < length h \<Longrightarrow> grad (h' ! n) = (if n = r then 1 else grad (h ! n)) +
                (\<Sum>m\<in>reach h r. weight pw h (backward_rule (h ! m)) n * grad (h' ! m))"
    by blast
  have rec: "(\<Sum>m\<in>reach h r. weight pw h (backward_rule (h ! m)) n * grad (h' ! m)) =
               received pw h' (reach h r) n" for n
    unfolding received_def using fr
    by (intro sum.cong) (auto simp: weight_cong[of h' h])
  have zero: "received pw h' (reach h r) n = 0" if "n \<notin> reach h r \<or> n = r" for n
    unfolding rec[symmetric] using weight_reach_zero[OF assms(1,3) _ that]
    by (intro sum.neutral) auto
  have lt: "n < length h" if "n \<in> reach h r" for n
    using reach_le[OF assms(1,3) that] assms(3) by simp
  have "grad (h' ! r) = 1"
    using gr[OF assms(3)] zero[of r] by (simp add: rec)
  moreover have "grad (h' ! n) = grad (h ! n) + received pw h' (reach h r) n"
    if "n \<in> reach h r" "n \<noteq> r" for n
    using gr[OF lt[OF that(1)]] that(2) by (simp add: rec)
  moreover have "grad (h' ! n) = grad (h ! n)" if "n < length h" "n \<notin> reach h r" for n
  proof -
    from that(2) have "n \<noteq> r" by (auto intro: reach.root)
    with gr[OF that(1)] zero[of n] that(2) show ?thesis by (simp add: rec)
  qed
  ultimately show ?thesis
    using bw fr by blast
qed


theorem backward_seed_and_accumulate_witness:
  "wf_heap [\<lparr>val = 5, grad = 2, backward_rule = Noop, ancestors = {}\<rparr>,
            \<lparr>val = 10, grad = 7, backward_rule = AddBackward 0 0 (Suc 0), ancestors = {0}\<rparr>] \<and>
   enumerates (\<lambda>u. sorted_list_of_set) \<and>
   (\<exists>h'. backward (\<lambda>u. sorted_list_of_set) (\<lambda>x p. Inr 1) 2 (Suc 0)
            [\<lparr>val = 5, grad = 2, backward_rule = Noop, ancestors = {}\<rparr>,
             \<lparr>val = 10, grad = 7, backward_rule = AddBackward 0 0 (Suc 0), ancestors = {0}\<rparr>]
              = Some (Inr h') \<and>
          grad (h' ! Suc 0) = 1 \<and> grad (h' ! 0) = 4)"
proof -
  let ?h = "[\<lparr>val = 5, grad = 2, backward_rule = Noop, ancestors = {}\<rparr>,
             \<lparr>val = 10, grad = 7, backward_rule = AddBackward 0 0 (Suc 0), ancestors = {0}\<rparr>]"
  have wf: "wf_heap ?h"
    by (auto simp: wf_heap_def less_Suc_eq)
  have r0: "reach ?h 0 = {0}"
    by (subst reach_unfold) simp
  have r1: "reach ?h (Suc 0) = {Suc 0, 0}"
    by (subst reach_unfold) (simp add: r0)
  have nr: "\<forall>m\<in>reach ?h (Suc 0). \<not> raises (\<lambda>x p. Inr 1) ?h (backward_rule (?h ! m))"
    by (simp add: raises_never)
  from backward_seed_and_accumulate[OF wf enumerates_sorted _ _ nr, of 2]
  obtain h' where bw: "backward (\<lambda>u. sorted_list_of_set) (\<lambda>x p. Inr 1) 2 (Suc 0) ?h = Some (Inr h')"
    and root: "grad (h' ! Suc 0) = 1"
    and acc: "grad (h' ! 0) = grad (?h ! 0) + received (\<lambda>x p. Inr 1) h' (reach ?h (Suc 0)) 0"
    and fr: "\<And>n. backward_rule (h' ! n) = backward_rule (?h ! n)"
    by (auto simp: r1)
  have "received (\<lambda>x p. Inr 1) h' (reach ?h (Suc 0)) 0 = 2"
    using root by (simp add: received_def r1 fr)
  with bw root acc wf enumerates_sorted show ?thesis
    by auto
qed


text \<open>
  Claim C6. For a node \<open>a\<close> with \<open>a.value = 0\<close> the node \<open>a.relu()\<close> has value 0.
  Its closure, called in any store in which the result still has value 0, adds 0 to
  \<open>a.grad\<close> and so leaves the store as it is, because \<open>res.value > 0\<close> is false at 0;
  after a backward pass from the result \<open>a.grad\<close> is what it was before.
\<close>

theorem relu_at_zero:
  assumes "wf_heap h" and "enumerates iter" and "a < length h" and "length h < fuel"
    and "\<forall>m\<in>reach h a. \<not> raises pw h (backward_rule (h ! m))"
    and "val (h ! a) = 0"
  shows "case Scalar_relu a h of (res, h1) \<Rightarrow>
           val (h1 ! res) = 0 \<and> backward_rule (h1 ! res) = ReluBackward a res \<and>
           (\<forall>h'. val (h' ! res) = 0 \<longrightarrow>
                 call pw (backward_rule (h1 ! res)) h' = Inr (add_grad a 0 h') \<and>
                 add_grad a 0 h' = h') \<and>
           (\<exists>h2. backward iter pw fuel res h1 = Some (Inr h2) \<and> grad (h2 ! res) = 1 \<and>
                 grad (h2 ! a) = grad (h ! a))"
proof -
  let ?x = "\<lparr>val = (if val (h ! a) < 0 then 0 else val (h ! a)), grad = 0,
             backward_rule = ReluBackward a (length h), ancestors = {a}\<rparr>"
  have "\<exists>h2. backward iter pw fuel (length h) (h @ [?x]) = Some (Inr h2) \<and>
           length h2 = Suc (length h) \<and> grad (h2 ! length h) = 1 \<and>
           (\<forall>n. val (h2 ! n) = val ((h @ [?x]) ! n) \<and>
                backward_rule (h2 ! n) = backward_rule ((h @ [?x]) ! n) \<and>
                ancestors (h2 ! n) = ancestors ((h @ [?x]) ! n)) \<and>
           (\<forall>n<length h. grad (h2 ! n) =
                grad (h ! n) + weight pw (h @ [?x]) (backward_rule ?x) n * grad (h2 ! length h) +
                received pw h2 (\<Union>a\<in>ancestors ?x. reach h a) n)"
    using assms(3,5) by (intro backward_fresh_root[OF assms(1,2,4)]) auto
  then obtain h2 where bw: "backward iter pw fuel (length h) (h @ [?x]) = Some (Inr h2)"
    and root: "grad (h2 ! length h) = 1"
    and fr: "\<And>n. val (h2 ! n) = val ((h @ [?x]) ! n) \<and>
                backward_rule (h2 ! n) = backward_rule ((h @ [?x]) ! n)"
    and gr: "\<And>n. n < length h \<Longrightarrow> grad (h2 ! n) =
                grad (h ! n) + weight pw (h @ [?x]) (backward_rule ?x) n * grad (h2 ! length h) +
                received pw h2 (reach h a) n"
    by auto
  have z: "received pw h2 (reach h a) a = 0"
    using received_zero_after[OF assms(1,3) fr, of a pw] by simp
  have "grad (h2 ! a) = grad (h ! a)"
    using gr[OF assms(3)] z assms(6) by simp
  with bw root show ?thesis
    unfolding Scalar_relu_eq using assms(6) by (simp add: add_grad_zero)
qed

theorem relu_at_zero_witness:
  "wf_heap [\<lparr>val = 0, grad = 3, backward_rule = Noop, ancestors = {}\<rparr>] \<and>
   enumerates (\<lambda>u. sorted_list_of_set) \<and>
   (\<exists>h2. backward (\<lambda>u. sorted_list_of_set) (\<lambda>x p. Inr 1) 2 (Suc 0)
            [\<lparr>val = 0, grad = 3, backward_rule = Noop, ancestors = {}\<rparr>,
             \<lparr>val = 0, grad = 0, backward_rule = ReluBackward 0 (Suc 0), ancestors = {0}\<rparr>]
              = Some (Inr h2) \<and>
          grad (h2 ! 0) = 3)"
proof -
  let ?h = "[\<lparr>val = 0, grad = 3, backward_rule = Noop, ancestors = {}\<rparr>]"
  have wf: "wf_heap ?h"
    by (auto simp: wf_heap_def)
  have nr: "\<forall>m\<in>reach ?h 0. \<not> raises (\<lambda>x p. Inr 1) ?h (backward_rule (?h ! m))"
    by (simp add: raises_never)
  have v: "val (?h ! 0) = 0" by simp
  from relu_at_zero[OF wf enumerates_sorted _ _ nr v, of 2]
  show ?thesis
    using wf enumerates_sorted
    by (auto simp: Scalar_relu_eq)
qed

text \<open>
  Claim C8. For a node \<open>x\<close> and a plain number \<open>c\<close>, Python evaluates \<open>c + x\<close> by
  \<open>x.__radd__(c)\<close> and \<open>x + c\<close> by \<open>x.__add__(c)\<close>, and likewise for \<open>*\<close>.
  Both expressions promote \<open>c\<close> to a constant leaf and give the same result node in
  the same store, so every later call of \<open>backward\<close> gives the same gradients. The
  result has the value \<open>x.value + c\<close>, respectively \<open>x.value * c\<close>, and a backward
  pass from it returns and has added 1, respectively \<open>c\<close>, to \<open>x.grad\<close>.
\<close>

theorem number_operand_either_side:
  assumes "wf_heap h" and "enumerates iter" and "x < length h" and "Suc (length h) < fuel"
    and "\<forall>m\<in>reach h x. \<not> raises pw h (backward_rule (h ! m))"
  shows
    "number_op_Scalar ''__radd__'' pw c x h = Scalar_op ''__add__'' pw x (Num c) h \<and>
     number_op_Scalar ''__rmul__'' pw c x h = Scalar_op ''__mul__'' pw x (Num c) h \<and>
     (\<exists>y h1. Scalar_op ''__add__'' pw x (Num c) h = Inr (y, h1) \<and>
         val (h1 ! y) = val (h ! x) + c \<and>
         (\<exists>h2. backward iter pw fuel y h1 = Some (Inr h2) \<and>
               grad (h2 ! x) = grad (h ! x) + 1)) \<and>
     (\<exists>y h1. Scalar_op ''__mul__'' pw x (Num c) h = Inr (y, h1) \<and>
         val (h1 ! y) = val (h ! x) * c \<and>
         (\<exists>h2. backward iter pw fuel y h1 = Some (Inr h2) \<and>
               grad (h2 ! x) = grad (h ! x) + c))"
proof -
  have a: "Scalar_op ''__add__'' pw x (Num c) h = Inr (Scalar_add x (Num c) h)"
    and m: "Scalar_op ''__mul__'' pw x (Num c) h = Inr (Scalar_mul x (Num c) h)"
    and ra: "number_op_Scalar ''__radd__'' pw c x h = Inr (Scalar_add x (Num c) h)"
    and rm: "number_op_Scalar ''__rmul__'' pw c x h = Inr (Scalar_mul x (Num c) h)"
    by (simp_all add: Scalar_op_def number_op_Scalar_def Scalar_binary_def
          Scalar_radd_def Scalar_rmul_def)
  from leaf_backward[OF assms, of c] show ?thesis
    unfolding a m ra rm by (auto split: prod.splits)
qed

theorem number_operand_either_side_witness:
  "wf_heap [\<lparr>val = 5, grad = 0, backward_rule = Noop, ancestors = {}\<rparr>] \<and>
   enumerates (\<lambda>u. sorted_list_of_set) \<and>
   number_op_Scalar ''__rmul__'' (\<lambda>x p. Inr 1) 3 0
       [\<lparr>val = 5, grad = 0, backward_rule = Noop, ancestors = {}\<rparr>] =
     Inr (2, [\<lparr>val = 5, grad = 0, backward_rule = Noop, ancestors = {}\<rparr>,
              \<lparr>val = 3, grad = 0, backward_rule = Noop, ancestors = {}\<rparr>,
              \<lparr>val = 15, grad = 0, backward_rule = MulBackward 0 (Suc 0) 2,
                ancestors = {0, Suc 0}\<rparr>]) \<and>
   (\<exists>h2. backward (\<lambda>u. sorted_list_of_set) (\<lambda>x p. Inr 1) 3 2
            [\<lparr>val = 5, grad = 0, backward_rule = Noop, ancestors = {}\<rparr>,
             \<lparr>val = 3, grad = 0, backward_rule = Noop, ancestors = {}\<rparr>,
             \<lparr>val = 15, grad = 0, backward_rule = MulBackward 0 (Suc 0) 2,
               ancestors = {0, Suc 0}\<rparr>] = Some (Inr h2) \<and>
          grad (h2 ! 0) = 3)"
proof -
  let ?h = "[\<lparr>val = 5, grad = 0, backward_rule = Noop, ancestors = {}\<rparr>]"
  have wf: "wf_heap ?h"
    by (auto simp: wf_heap_def)
  have nr: "\<forall>m\<in>reach ?h 0. \<not> raises (\<lambda>x p. Inr 1) ?h (backward_rule (?h ! m))"
    by (simp add: raises_never)
  have op: "Scalar_op ''__mul__'' (\<lambda>x p. Inr 1) 0 (Num 3) ?h =
     Inr (2, [\<lparr>val = 5, grad = 0, backward_rule = Noop, ancestors = {}\<rparr>,
              \<lparr>val = 3, grad = 0, backward_rule = Noop, ancestors = {}\<rparr>,
              \<lparr>val = 15, grad = 0, backward_rule = MulBackward 0 (Suc 0) 2,
                ancestors = {0, Suc 0}\<rparr>])"
    by (simp add: Scalar_op_def Scalar_binary_def Scalar_mul_Num numeral_2_eq_2)
  from number_operand_either_side[OF wf enumerates_sorted _ _ nr, of 3 3]
  show ?thesis
    using wf enumerates_sorted unfolding op by auto
qed

section \<open>Properties of the network layer\<close>

text \<open>
  Claim C9. A neuron whose activation kind is none of \<open>linear\<close>, \<open>tanh\<close>,
  \<open>relu\<close>, \<open>gelu\<close> falls through every branch of \<open>__call__\<close>: the call returns
  Python's \<open>None\<close> instead of a node, for every input and every store, and the model of the
  call has no error result.
\<close>

theorem Neuron_call_unknown_activation:
  "activation n \<notin> {''linear'', ''tanh'', ''relu'', ''gelu''} \<Longrightarrow>
     fst (Neuron_call n x h) = None"
  by (simp add: Neuron_call_def split: prod.splits)

theorem Neuron_call_unknown_activation_witness:
  "activation \<lparr>weights = [0], bias = 1, activation = ''sigmoid''\<rparr>
       \<notin> {''linear'', ''tanh'', ''relu'', ''gelu''} \<and>
   fst (Neuron_call \<lparr>weights = [0], bias = 1, activation = ''sigmoid''\<rparr> [Num 2]
          (snd (Neuron_init [1 / 2] ''sigmoid'' []))) = None"
  using Neuron_call_unknown_activation
          [of "\<lparr>weights = [0], bias = 1, activation = ''sigmoid''\<rparr>" "[Num 2]"
              "snd (Neuron_init [1 / 2] ''sigmoid'' [])"]
  by simp



end
